theory Spec2Isabelle
  imports Main "HOL-Library.Sublist" "HOL-Library.Char_ord" "HOL-Library.List_Lexorder"
    "HOL-Library.AList"
begin

section \<open>Python text\<close>

text \<open>
  A Python \<open>str\<close> is modelled as a \<open>string\<close> whose characters are the code points
  below 256 (ASCII and the Latin-1 supplement).  On that range the predicates below are
  the tables of CPython's \<open>str.isdigit\<close>, \<open>str.isalnum\<close>, \<open>str.isspace\<close> and
  \<open>str.lower\<close>; \<open>length\<close> counts code points, as \<open>len\<close> does.
\<close>

definition code :: "char \<Rightarrow> int" where
  "code c = of_char c"

definition isdigit :: "char \<Rightarrow> bool" where
  "isdigit c = (let n = code c in (48 \<le> n \<and> n \<le> 57) \<or> n = 178 \<or> n = 179 \<or> n = 185)"

definition isalnum :: "char \<Rightarrow> bool" where
  "isalnum c = (let n = code c in
     (48 \<le> n \<and> n \<le> 57) \<or> (65 \<le> n \<and> n \<le> 90) \<or> (97 \<le> n \<and> n \<le> 122) \<or>
     n = 170 \<or> n = 178 \<or> n = 179 \<or> n = 181 \<or> n = 185 \<or> n = 186 \<or>
     (188 \<le> n \<and> n \<le> 190) \<or> (192 \<le> n \<and> n \<le> 214) \<or> (216 \<le> n \<and> n \<le> 246) \<or>
     (248 \<le> n \<and> n \<le> 255))"

definition isspace :: "char \<Rightarrow> bool" where
  "isspace c = (let n = code c in
     (9 \<le> n \<and> n \<le> 13) \<or> (28 \<le> n \<and> n \<le> 32) \<or> n = 133 \<or> n = 160)"

definition lower_char :: "char \<Rightarrow> char" where
  "lower_char c = (let n = code c in
     if (65 \<le> n \<and> n \<le> 90) \<or> (192 \<le> n \<and> n \<le> 214) \<or> (216 \<le> n \<and> n \<le> 222)
     then char_of (n + 32) else c)"

definition lower :: "string \<Rightarrow> string" where
  "lower s = map lower_char s"

text \<open>\<open>s.isdigit()\<close>: every character is a digit and there is at least one.\<close>

definition str_isdigit :: "string \<Rightarrow> bool" where
  "str_isdigit s = (s \<noteq> [] \<and> list_all isdigit s)"

text \<open>\<open>sub in s\<close>: \<open>sub\<close> occurs in \<open>s\<close> as a contiguous substring.\<close>

fun str_contains :: "string \<Rightarrow> string \<Rightarrow> bool" where
  "str_contains sub [] = (sub = [])"
| "str_contains sub (c # cs) = (prefix sub (c # cs) \<or> str_contains sub cs)"

text \<open>\<open>s.split(d)\<close> for a one-character separator \<open>d\<close>.\<close>

fun split_on :: "char \<Rightarrow> string \<Rightarrow> string list" where
  "split_on d [] = [[]]"
| "split_on d (c # cs) =
     (if c = d then [] # split_on d cs
      else (case split_on d cs of [] \<Rightarrow> [[c]] | p # ps \<Rightarrow> (c # p) # ps))"

text \<open>\<open>s.strip(chars)\<close>, and \<open>s.strip()\<close> as \<open>strip_chars isspace\<close>.\<close>

definition strip_chars :: "(char \<Rightarrow> bool) \<Rightarrow> string \<Rightarrow> string" where
  "strip_chars p s = rev (dropWhile p (rev (dropWhile p s)))"

text \<open>Exceptions are values; a function that can raise returns \<open>py_error + 'a\<close>.\<close>

datatype py_error = IndexError | ValueError | OSError | HTTPException

text \<open>\<open>xs[-k]\<close> for \<open>k > 0\<close>: raises \<open>IndexError\<close> when the list is shorter than \<open>k\<close>.\<close>

definition from_end :: "'a list \<Rightarrow> nat \<Rightarrow> py_error + 'a" where
  "from_end xs k =
     (if 0 < k \<and> k \<le> length xs then Inr (xs ! (length xs - k)) else Inl IndexError)"

section \<open>EnhancedScanner.\_is\_valid\_webhook\<close>

definition webhook_domains :: "string list" where
  "webhook_domains = [''discord.com/api/webhooks/'', ''discordapp.com/api/webhooks/'']"

definition token_char :: "char \<Rightarrow> bool" where
  "token_char c = (isalnum c \<or> str_contains [c] ''-_'')"

definition is_valid_webhook :: "string \<Rightarrow> py_error + bool" where
  "is_valid_webhook url =
     (if url = [] \<or> length url < 50 then Inr False
      else let url_lower = lower url in
        if \<not> list_ex (\<lambda>domain. str_contains domain url_lower) webhook_domains then Inr False
        else let parts = split_on CHR ''/'' url in
          if length parts < 7 then Inr False
          else (case from_end parts 2 of
                  Inl e \<Rightarrow> Inl e
                | Inr webhook_id \<Rightarrow>
                   (case from_end parts 1 of
                      Inl e \<Rightarrow> Inl e
                    | Inr webhook_token \<Rightarrow>
                       if \<not> str_isdigit webhook_id \<or> length webhook_id < 17 then Inr False
                       else if length webhook_token < 50 \<or> \<not> list_all token_char webhook_token
                       then Inr False
                       else Inr True)))"

text \<open>
  The vocabulary of the specification: the accepted hostnames, the fixed path prefix that
  follows them, and the host of a URL (the text between \<open>//\<close> and the next
  \<open>/\<close>).
\<close>

definition accepted_hosts :: "string list" where
  "accepted_hosts = [''discord.com'', ''discordapp.com'']"

definition webhook_path :: string where
  "webhook_path = ''/api/webhooks/''"

definition url_host :: "string \<Rightarrow> string option" where
  "url_host u = (case split_on CHR ''/'' u of _ # _ # h # _ \<Rightarrow> Some h | _ \<Rightarrow> None)"

section \<open>EnhancedScanner.\_extract\_resource\_name\<close>

text \<open>
  A \<open>pathlib.Path\<close> is the list of its parts.  \<open>p.relative_to(base)\<close> raises
  \<open>ValueError\<close> unless \<open>base\<close> is a leading part of \<open>p\<close>.
\<close>

type_synonym path = "string list"

definition relative_to :: "path \<Rightarrow> path \<Rightarrow> py_error + path" where
  "relative_to p base = (if prefix base p then Inr (drop (length base) p) else Inl ValueError)"

text \<open>\<open>xs.index(x)\<close> when \<open>x in xs\<close>: the position of the first element equal to \<open>x\<close>.\<close>

definition index_of :: "'a \<Rightarrow> 'a list \<Rightarrow> nat" where
  "index_of x xs = length (takeWhile (\<lambda>y. y \<noteq> x) xs)"

text \<open>Truth value of an \<open>Optional[str]\<close>: \<open>None\<close> and the empty string are false.\<close>

definition truthy :: "string option \<Rightarrow> bool" where
  "truthy r = (case r of None \<Rightarrow> False | Some s \<Rightarrow> s \<noteq> [])"

definition extract_resource_name :: "path \<Rightarrow> path \<Rightarrow> string" where
  "extract_resource_name base_path file_path =
     (case relative_to file_path base_path of
        Inl e \<Rightarrow> ''unknown''
      | Inr parts \<Rightarrow>
          if parts = [] then ''unknown''
          else
            let resource_name =
                 (if ''resources'' \<in> set parts
                  then let res_idx = index_of ''resources'' parts
                       in if res_idx + 1 < length parts then Some (parts ! (res_idx + 1)) else None
                  else None);
                resource_name =
                 (if \<not> truthy resource_name \<and> 1 \<le> length parts
                  then if prefix ''['' (parts ! 0) \<and> suffix '']'' (parts ! 0)
                       then if 2 \<le> length parts then Some (parts ! 1) else Some (parts ! 0)
                       else Some (parts ! 0)
                  else resource_name)
            in case resource_name of
                 None \<Rightarrow> ''unknown''
               | Some name \<Rightarrow>
                   if name \<noteq> []
                   then let name' = strip_chars isspace (strip_chars (\<lambda>c. c \<in> set ''[]'') name)
                        in if name' \<noteq> [] then name' else ''unknown''
                   else ''unknown'')"

text \<open>
  The vocabulary of the specification: a bracket-delimited segment, and the cleaning of
  the chosen segment (brackets stripped, then whitespace, with the sentinel for an
  empty result).
\<close>

definition bracketed :: "string \<Rightarrow> bool" where
  "bracketed seg = (seg \<noteq> [] \<and> hd seg = CHR ''['' \<and> last seg = CHR '']'')"

definition clean_segment :: "string \<Rightarrow> string" where
  "clean_segment seg =
     (let r = strip_chars isspace (strip_chars (\<lambda>c. c = CHR ''['' \<or> c = CHR '']'') seg)
      in if r = [] then ''unknown'' else r)"

section \<open>FileUpdater\<close>

subsection \<open>Text search and replacement\<close>

text \<open>
  \<open>s.count(sub)\<close> counts non-overlapping occurrences from the left, and
  \<open>s.replace(old, new)\<close> replaces exactly those occurrences; for an empty pattern
  Python counts, and inserts at, every position between characters.
\<close>

fun count_from :: "string \<Rightarrow> string \<Rightarrow> nat" where
  "count_from sub [] = 0"
| "count_from sub (c # cs) =
     (if prefix sub (c # cs) then Suc (count_from sub (drop (length sub - 1) cs))
      else count_from sub cs)"

definition str_count :: "string \<Rightarrow> string \<Rightarrow> nat" where
  "str_count s sub = (if sub = [] then length s + 1 else count_from sub s)"

fun replace_from :: "string \<Rightarrow> string \<Rightarrow> string \<Rightarrow> string" where
  "replace_from old new [] = []"
| "replace_from old new (c # cs) =
     (if prefix old (c # cs) then new @ replace_from old new (drop (length old - 1) cs)
      else c # replace_from old new cs)"

definition str_replace :: "string \<Rightarrow> string \<Rightarrow> string \<Rightarrow> string" where
  "str_replace s old new =
     (if old = [] then new @ concat (map (\<lambda>c. c # new) s) else replace_from old new s)"

text \<open>
  The loop over \<open>webhook_mappings.items()\<close>: a dict is the list of its items in
  insertion order; the pair carried along is \<open>(content, replacements)\<close>.
\<close>

fun apply_mappings :: "(string \<times> string) list \<Rightarrow> string \<times> nat \<Rightarrow> string \<times> nat" where
  "apply_mappings [] (content, n) = (content, n)"
| "apply_mappings ((old_url, new_url) # ms) (content, n) =
     (if str_contains old_url content
      then apply_mappings ms (str_replace content old_url new_url, n + str_count content old_url)
      else apply_mappings ms (content, n))"

subsection \<open>The file system\<close>

text \<open>
  Files hold text.  Reading a path raises \<open>OSError\<close> when no file is there or when the
  environment makes it unreadable.  Opening a path for writing either works, or raises
  before anything is changed (\<open>OpenFails\<close>), or succeeds (which empties the file, as
  mode \<open>'w'\<close> does) after which the write raises with only the first \<open>n\<close>
  characters stored (\<open>WriteBreaks n\<close>).
\<close>

datatype wfault = WriteOk | OpenFails | WriteBreaks nat

record filesystem =
  files :: "(path \<times> string) list"
  unreadable :: "path \<Rightarrow> bool"
  wfault :: "path \<Rightarrow> wfault"
  mkdir_fails :: bool

definition path_exists :: "filesystem \<Rightarrow> path \<Rightarrow> bool" where
  "path_exists fs p = (map_of (files fs) p \<noteq> None)"

definition read_text :: "filesystem \<Rightarrow> path \<Rightarrow> py_error + string" where
  "read_text fs p =
     (case map_of (files fs) p of
        None \<Rightarrow> Inl OSError
      | Some c \<Rightarrow> if unreadable fs p then Inl OSError else Inr c)"

definition write_text :: "filesystem \<Rightarrow> path \<Rightarrow> string \<Rightarrow> py_error option \<times> filesystem" where
  "write_text fs p c =
     (case wfault fs p of
        OpenFails \<Rightarrow> (Some OSError, fs)
      | WriteBreaks n \<Rightarrow> (Some OSError, fs\<lparr>files := AList.update p (take n c) (files fs)\<rparr>)
      | WriteOk \<Rightarrow> (None, fs\<lparr>files := AList.update p c (files fs)\<rparr>))"

subsection \<open>Path names\<close>

text \<open>
  \<open>p.name\<close> is the last part; \<open>p.suffix\<close> starts at the last dot of the name unless
  that dot is its first or last character, and \<open>p.stem\<close> is the name without the
  suffix.  \<open>str(n)\<close> is the decimal numeral of \<open>n\<close>.
\<close>

definition path_name :: "path \<Rightarrow> string" where
  "path_name p = (if p = [] then [] else last p)"

definition rfind :: "char \<Rightarrow> string \<Rightarrow> nat option" where
  "rfind d s = (if d \<in> set s then Some (length s - 1 - index_of d (rev s)) else None)"

definition path_suffix :: "path \<Rightarrow> string" where
  "path_suffix p =
     (let name = path_name p
      in case rfind CHR ''.'' name of
           None \<Rightarrow> []
         | Some i \<Rightarrow> if 0 < i \<and> i < length name - 1 then drop i name else [])"

definition path_stem :: "path \<Rightarrow> string" where
  "path_stem p =
     (let name = path_name p
      in case rfind CHR ''.'' name of
           None \<Rightarrow> name
         | Some i \<Rightarrow> if 0 < i \<and> i < length name - 1 then take i name else name)"

fun str_nat :: "nat \<Rightarrow> string" where
  "str_nat n =
     (if n < 10 then [char_of (48 + n)] else str_nat (n div 10) @ [char_of (48 + n mod 10)])"

declare str_nat.simps [simp del]

subsection \<open>FileUpdater.\_update\_file\<close>

text \<open>
  The \<open>while backup_file.exists()\<close> loop.  It ends because the candidate names are
  pairwise distinct and only finitely many files exist.
\<close>

definition numbered :: "path \<Rightarrow> string \<Rightarrow> string \<Rightarrow> nat \<Rightarrow> path" where
  "numbered backup_dir stem sfx counter = backup_dir @ [stem @ ''_'' @ str_nat counter @ sfx]"

function free_backup ::
  "filesystem \<Rightarrow> path \<Rightarrow> string \<Rightarrow> string \<Rightarrow> path \<Rightarrow> nat \<Rightarrow> path" where
  "free_backup fs backup_dir stem sfx backup_file counter =
     (if path_exists fs backup_file
      then free_backup fs backup_dir stem sfx (numbered backup_dir stem sfx counter) (counter + 1)
      else backup_file)"
  by pat_completeness auto
termination
proof (relation "measure (\<lambda>(fs, backup_dir, stem, sfx, backup_file, counter).
    if path_exists fs backup_file
    then Suc (card {k. counter \<le> k \<and> path_exists fs (numbered backup_dir stem sfx k)})
    else 0)")
  show "wf (measure (\<lambda>(fs, backup_dir, stem, sfx, backup_file, counter).
    if path_exists fs backup_file
    then Suc (card {k. counter \<le> k \<and> path_exists fs (numbered backup_dir stem sfx k)})
    else 0))"
    by simp
next
  fix fs :: filesystem and backup_dir :: path and stem sfx :: string
    and backup_file :: path and counter :: nat
  assume ex: "path_exists fs backup_file"
  have digit: "char_of (48 + a) = (char_of (48 + b) :: char) \<longleftrightarrow> a = b"
    if "a < 10" "b < 10" for a b :: nat
  proof
    assume "char_of (48 + a) = (char_of (48 + b) :: char)"
    then have "of_char (char_of (48 + a) :: char) = (of_char (char_of (48 + b) :: char) :: nat)"
      by simp
    then show "a = b" using that by (simp add: of_char_of)
  qed simp
  have ne: "str_nat n \<noteq> []" for n
    by (subst str_nat.simps) simp
  have inj: "str_nat n = str_nat m \<Longrightarrow> n = m" for n m
  proof (induction n arbitrary: m rule: str_nat.induct)
    case (1 n)
    show ?case
    proof (cases "n < 10")
      case True
      then have n: "str_nat n = [char_of (48 + n)]" by (subst str_nat.simps) simp
      show ?thesis
      proof (cases "m < 10")
        case m: True
        then have "str_nat m = [char_of (48 + m)]" by (subst str_nat.simps) simp
        with n "1.prems" show ?thesis using digit [OF True m] by simp
      next
        case False
        then have "str_nat m = str_nat (m div 10) @ [char_of (48 + m mod 10)]"
          by (subst str_nat.simps) simp
        with n "1.prems" ne [of "m div 10"] show ?thesis by simp
      qed
    next
      case False
      then have n: "str_nat n = str_nat (n div 10) @ [char_of (48 + n mod 10)]"
        by (subst str_nat.simps) simp
      show ?thesis
      proof (cases "m < 10")
        case True
        then have "str_nat m = [char_of (48 + m)]" by (subst str_nat.simps) simp
        with n "1.prems" ne [of "n div 10"] show ?thesis by simp
      next
        case m: False
        then have "str_nat m = str_nat (m div 10) @ [char_of (48 + m mod 10)]"
          by (subst str_nat.simps) simp
        with n "1.prems" have eq: "str_nat (n div 10) = str_nat (m div 10)"
          and d: "char_of (48 + n mod 10) = (char_of (48 + m mod 10) :: char)"
          by simp_all
        from "1.IH" [OF False eq] have "n div 10 = m div 10" .
        moreover from d have "n mod 10 = m mod 10" by (simp add: digit)
        ultimately show ?thesis by (metis div_mult_mod_eq)
      qed
    qed
  qed
  let ?c = "numbered backup_dir stem sfx"
  have "inj ?c"
    by (rule injI) (simp add: numbered_def, rule inj)
  moreover have "finite {p. path_exists fs p}"
  proof -
    have "{p. path_exists fs p} = dom (map_of (files fs))"
      by (auto simp: path_exists_def)
    then show ?thesis by (simp add: finite_dom_map_of)
  qed
  ultimately have fin: "finite {k. path_exists fs (?c k)}"
    using finite_vimageI [of "{p. path_exists fs p}" ?c] by (simp add: vimage_def)
  let ?S = "\<lambda>n. {k. n \<le> k \<and> path_exists fs (?c k)}"
  have finS: "finite (?S n)" for n
    by (rule finite_subset [OF _ fin]) auto
  show "((fs, backup_dir, stem, sfx, ?c counter, counter + 1),
         (fs, backup_dir, stem, sfx, backup_file, counter)) \<in>
        measure (\<lambda>(fs, backup_dir, stem, sfx, backup_file, counter).
          if path_exists fs backup_file
          then Suc (card {k. counter \<le> k \<and> path_exists fs (numbered backup_dir stem sfx k)})
          else 0)"
  proof (cases "path_exists fs (?c counter)")
    case False
    with ex show ?thesis by simp
  next
    case True
    have "?S counter = insert counter (?S (counter + 1))"
      using True by (auto simp: le_Suc_eq)
    moreover have "counter \<notin> ?S (counter + 1)" by simp
    ultimately have "card (?S counter) = Suc (card (?S (counter + 1)))"
      using finS [of "counter + 1"] by (simp add: card_insert_disjoint)
    with ex True show ?thesis by simp
  qed
qed

declare free_backup.simps [simp del]

record update_stats =
  files_updated :: nat
  replacements :: nat
  files_backed_up :: nat

text \<open>
  The target of the backup write: the base name inside the backup directory, or the first
  numbered variant that does not exist yet.
\<close>

definition backup_target :: "filesystem \<Rightarrow> path \<Rightarrow> path \<Rightarrow> path" where
  "backup_target fs backup_dir file_path =
     free_backup fs backup_dir (path_stem file_path) (path_suffix file_path)
       (backup_dir @ [path_name file_path]) 1"

text \<open>
  Every exception inside the body is caught and dropped, so the function always returns
  the state reached so far.  \<open>backup_dir\<close> is \<open>None\<close> when backups are off.
\<close>

definition update_file ::
  "bool \<Rightarrow> path \<Rightarrow> (string \<times> string) list \<Rightarrow> path option \<Rightarrow>
   filesystem \<times> update_stats \<Rightarrow> filesystem \<times> update_stats" where
  "update_file create_backups file_path webhook_mappings backup_dir = (\<lambda>(fs, stats).
     case read_text fs file_path of
       Inl e \<Rightarrow> (fs, stats)
     | Inr original \<Rightarrow>
         (case apply_mappings webhook_mappings (original, 0) of (content, n) \<Rightarrow>
            if 0 < n
            then (case (case backup_dir of
                          Some dir \<Rightarrow>
                            if create_backups
                            then (case write_text fs (backup_target fs dir file_path) original of
                                    (Some e, fs1) \<Rightarrow> (Some e, fs1, stats)
                                  | (None, fs1) \<Rightarrow>
                                      (None, fs1,
                                       stats\<lparr>files_backed_up := files_backed_up stats + 1\<rparr>))
                            else (None, fs, stats)
                        | None \<Rightarrow> (None, fs, stats)) of
                    (Some e, fs1, stats1) \<Rightarrow> (fs1, stats1)
                  | (None, fs1, stats1) \<Rightarrow>
                      (case write_text fs1 file_path content of
                         (Some e, fs2) \<Rightarrow> (fs2, stats1)
                       | (None, fs2) \<Rightarrow>
                           (fs2, stats1\<lparr>files_updated := files_updated stats1 + 1,
                                         replacements := replacements stats1 + n\<rparr>)))
            else (fs, stats)))"

subsection \<open>FileUpdater.update\_all\<close>

text \<open>
  \<open>files_to_update\<close> is a Python set, iterated in an order the language does not fix;
  \<open>update_all\<close> therefore takes the iteration order as a list \<open>order\<close>, which
  enumerates that set.  The backup directory is the configured directory followed by the
  run's time stamp; creating it is outside every \<open>try\<close>, so a failure there is raised
  to the caller.
\<close>

definition occurrences_of :: "(string \<times> (path \<times> string) list) list \<Rightarrow> string \<Rightarrow> (path \<times> string) list" where
  "occurrences_of file_occurrences url =
     (case map_of file_occurrences url of None \<Rightarrow> [] | Some l \<Rightarrow> l)"

definition files_to_update ::
  "(string \<times> string) list \<Rightarrow> (string \<times> (path \<times> string) list) list \<Rightarrow> path set" where
  "files_to_update webhook_mappings file_occurrences =
     set (concat (map (\<lambda>(old_url, _). map fst (occurrences_of file_occurrences old_url))
                      webhook_mappings))"

fun update_files ::
  "bool \<Rightarrow> (string \<times> string) list \<Rightarrow> path option \<Rightarrow> path list \<Rightarrow>
   filesystem \<times> update_stats \<Rightarrow> filesystem \<times> update_stats" where
  "update_files create_backups webhook_mappings backup_dir [] st = st"
| "update_files create_backups webhook_mappings backup_dir (file_path # rest) st =
     update_files create_backups webhook_mappings backup_dir rest
       (update_file create_backups file_path webhook_mappings backup_dir st)"

definition update_all ::
  "bool \<Rightarrow> string \<Rightarrow> string \<Rightarrow> (string \<times> string) list \<Rightarrow> path list \<Rightarrow>
   filesystem \<times> update_stats \<Rightarrow> py_error + (filesystem \<times> update_stats)" where
  "update_all create_backups backup_root timestamp webhook_mappings order = (\<lambda>(fs, stats).
     if create_backups
     then if mkdir_fails fs then Inl OSError
          else Inr (update_files create_backups webhook_mappings (Some [backup_root, timestamp])
                      order (fs, stats))
     else Inr (update_files create_backups webhook_mappings None order (fs, stats)))"

subsection \<open>Vocabulary for the rewrite claims\<close>



definition example_old :: string where
  "example_old =
     ''https://discord.com/api/webhooks/123456789012345678/AAAAAAAAAAAAAAAAAAAAAAAAAAAAAAAAAAAAAAAAAAAAAAAAAA''"

definition example_new :: string where
  "example_new =
     ''https://discord.com/api/webhooks/987654321098765432/BBBBBBBBBBBBBBBBBBBBBBBBBBBBBBBBBBBBBBBBBBBBBBBBBB''"

definition no_faults :: "(path \<times> string) list \<Rightarrow> filesystem" where
  "no_faults fl = \<lparr>files = fl, unreadable = (\<lambda>_. False), wfault = (\<lambda>_. WriteOk),
                   mkdir_fails = False\<rparr>"

definition no_stats :: update_stats where
  "no_stats = \<lparr>files_updated = 0, replacements = 0, files_backed_up = 0\<rparr>"


definition example_file :: path where
  "example_file = [''srv'', ''resources'', ''shop'', ''config.lua'']"

definition example_file2 :: path where
  "example_file2 = [''srv'', ''resources'', ''bank'', ''config.lua'']"

definition example_dir :: path where
  "example_dir = [''webhook_backups'', ''20250101_120000'']"

definition example_content :: string where
  "example_content =
     ''a = '' @ example_old @ ''; b = '' @ example_old @ ''; c = '' @ example_old"


definition write_breaks_at :: "path \<Rightarrow> (path \<times> string) list \<Rightarrow> filesystem" where
  "write_breaks_at p fl =
     \<lparr>files = fl, unreadable = (\<lambda>_. False),
      wfault = (\<lambda>q. if q = p then WriteBreaks 0 else WriteOk), mkdir_fails = False\<rparr>"

definition open_fails_at :: "path \<Rightarrow> (path \<times> string) list \<Rightarrow> filesystem" where
  "open_fails_at p fl =
     \<lparr>files = fl, unreadable = (\<lambda>_. False),
      wfault = (\<lambda>q. if q = p then OpenFails else WriteOk), mkdir_fails = False\<rparr>"

definition example_content2 :: string where
  "example_content2 = ''hook = '' @ example_old"

definition example_files :: "(path \<times> string) list" where
  "example_files = [(example_file, example_content), (example_file2, example_content2)]"

section \<open>Regular expressions\<close>

text \<open>
  The patterns of the program, as syntax trees, and the matching of Python's \<open>re\<close>
  module for them: a backtracking matcher.  Matching a pattern at a position is given the
  rest of the match as a continuation, tries the ways the pattern can match in the order
  of preference (greedy repetition takes the longest run first, an alternative's left
  branch comes first) and returns the first one with which the continuation succeeds,
  which is the match \<open>re\<close> reports.  Repetition is applied to single-character items
  only, which is all the program's patterns need.  A match state is the character before
  the position (for \<open>\b\<close>), the rest of the subject, and group 1 if it has matched,
  kept as the subject from where the group starts and from where it ends.
\<close>

datatype cclass = CChar char | CRange char char | CDigit | CWord | CSpace

definition is_decimal :: "char \<Rightarrow> bool" where
  "is_decimal c = (48 \<le> code c \<and> code c \<le> 57)"

definition is_word :: "char \<Rightarrow> bool" where
  "is_word c = (isalnum c \<or> c = CHR ''_'')"

fun class_has :: "cclass \<Rightarrow> char \<Rightarrow> bool" where
  "class_has (CChar x) c = (c = x)"
| "class_has (CRange lo hi) c = (code lo \<le> code c \<and> code c \<le> code hi)"
| "class_has CDigit c = is_decimal c"
| "class_has CWord c = is_word c"
| "class_has CSpace c = isspace c"

datatype atom = Ch char | OneOf "cclass list" | NoneOf "cclass list"

text \<open>
  The flag is \<open>re.IGNORECASE\<close>.  Under it a literal character matches both of its
  cases and a set is tested on the character and on its lowercase; the sets of the
  program's case-insensitive patterns hold no letters or ranges, so for them the flag
  changes nothing.
\<close>

fun atom_ok :: "bool \<Rightarrow> atom \<Rightarrow> char \<Rightarrow> bool" where
  "atom_ok ic (Ch x) c = (if ic then lower_char c = lower_char x else c = x)"
| "atom_ok ic (OneOf cl) c =
     list_ex (\<lambda>k. class_has k c \<or> (ic \<and> class_has k (lower_char c))) cl"
| "atom_ok ic (NoneOf cl) c =
     (\<not> list_ex (\<lambda>k. class_has k c \<or> (ic \<and> class_has k (lower_char c))) cl)"

datatype rx =
    Atom atom
  | Lit string
  | Star atom
  | Plus atom
  | Opt rx
  | Alt rx rx
  | Seq rx rx
  | Group rx
  | WordB

type_synonym mstate = "char option \<times> string \<times> (string \<times> string) option"

fun star :: "(char \<Rightarrow> bool) \<Rightarrow> (mstate \<Rightarrow> mstate option) \<Rightarrow> mstate \<Rightarrow> mstate option" where
  "star p k (prev, [], cap) = k (prev, [], cap)"
| "star p k (prev, c # cs, cap) =
     (if p c
      then (case star p k (Some c, cs, cap) of
              Some m \<Rightarrow> Some m
            | None \<Rightarrow> k (prev, c # cs, cap))
      else k (prev, c # cs, cap))"

fun lit :: "bool \<Rightarrow> string \<Rightarrow> (mstate \<Rightarrow> mstate option) \<Rightarrow> mstate \<Rightarrow> mstate option" where
  "lit ic [] k st = k st"
| "lit ic (x # xs) k (prev, [], cap) = None"
| "lit ic (x # xs) k (prev, c # cs, cap) =
     (if atom_ok ic (Ch x) c then lit ic xs k (Some c, cs, cap) else None)"

definition word_before :: "char option \<Rightarrow> bool" where
  "word_before prev = (case prev of None \<Rightarrow> False | Some c \<Rightarrow> is_word c)"

definition word_after :: "string \<Rightarrow> bool" where
  "word_after s = (case s of [] \<Rightarrow> False | c # _ \<Rightarrow> is_word c)"

fun rmatch :: "bool \<Rightarrow> rx \<Rightarrow> (mstate \<Rightarrow> mstate option) \<Rightarrow> mstate \<Rightarrow> mstate option" where
  "rmatch ic (Atom a) k (prev, s, cap) =
     (case s of [] \<Rightarrow> None | c # cs \<Rightarrow> if atom_ok ic a c then k (Some c, cs, cap) else None)"
| "rmatch ic (Lit l) k st = lit ic l k st"
| "rmatch ic (Star a) k st = star (atom_ok ic a) k st"
| "rmatch ic (Plus a) k (prev, s, cap) =
     (case s of [] \<Rightarrow> None
      | c # cs \<Rightarrow> if atom_ok ic a c then star (atom_ok ic a) k (Some c, cs, cap) else None)"
| "rmatch ic (Opt r) k st =
     (case rmatch ic r k st of Some m \<Rightarrow> Some m | None \<Rightarrow> k st)"
| "rmatch ic (Alt r1 r2) k st =
     (case rmatch ic r1 k st of Some m \<Rightarrow> Some m | None \<Rightarrow> rmatch ic r2 k st)"
| "rmatch ic (Seq r1 r2) k st = rmatch ic r1 (rmatch ic r2 k) st"
| "rmatch ic (Group r) k (prev, s, cap) =
     rmatch ic r (\<lambda>(prev', s', cap'). k (prev', s', Some (s, s'))) (prev, s, cap)"
| "rmatch ic WordB k (prev, s, cap) =
     (if word_before prev \<noteq> word_after s then k (prev, s, cap) else None)"

text \<open>A pattern written as a sequence of items.\<close>

fun seqs :: "rx list \<Rightarrow> rx" where
  "seqs [] = Lit []"
| "seqs [r] = r"
| "seqs (r # rs) = Seq r (seqs rs)"

text \<open>
  \<open>pattern.finditer(s)\<close>: the matches from left to right, each search starting where
  the previous match ended; a match is its text (\<open>group(0)\<close>) and group 1, each the
  part of the subject between two positions.  None of the
  program's patterns can match the empty string; for one that could, the empty match is
  reported and the search moves on by one character.
\<close>

definition between :: "string \<Rightarrow> string \<Rightarrow> string" where
  "between s s' = take (length s - length s') s"

fun finditer_from :: "bool \<Rightarrow> rx \<Rightarrow> char option \<Rightarrow> string \<Rightarrow> (string \<times> string option) list" where
  "finditer_from ic r prev s =
     (case rmatch ic r Some (prev, s, None) of
        None \<Rightarrow> (case s of [] \<Rightarrow> [] | c # cs \<Rightarrow> finditer_from ic r (Some c) cs)
      | Some (prev', s', cap) \<Rightarrow>
          let group1 = map_option (\<lambda>(a, b). between a b) cap
          in if length s' < length s
             then (between s s', group1) # finditer_from ic r prev' s'
             else (case s of [] \<Rightarrow> [([], group1)]
                   | c # cs \<Rightarrow> ([], group1) # finditer_from ic r (Some c) cs))"

declare finditer_from.simps [simp del]

definition finditer :: "bool \<Rightarrow> rx \<Rightarrow> string \<Rightarrow> (string \<times> string option) list" where
  "finditer ic r s = finditer_from ic r None s"

text \<open>\<open>re.sub(pattern, repl, s)\<close> for a replacement text without group references.\<close>

fun sub_from :: "bool \<Rightarrow> rx \<Rightarrow> string \<Rightarrow> char option \<Rightarrow> string \<Rightarrow> string" where
  "sub_from ic r repl prev s =
     (case rmatch ic r Some (prev, s, None) of
        None \<Rightarrow> (case s of [] \<Rightarrow> [] | c # cs \<Rightarrow> c # sub_from ic r repl (Some c) cs)
      | Some (prev', s', cap) \<Rightarrow>
          if length s' < length s
          then repl @ sub_from ic r repl prev' s'
          else (case s of [] \<Rightarrow> repl
                | c # cs \<Rightarrow> repl @ c # sub_from ic r repl (Some c) cs))"

declare sub_from.simps [simp del]

definition re_sub :: "bool \<Rightarrow> rx \<Rightarrow> string \<Rightarrow> string \<Rightarrow> string" where
  "re_sub ic r repl s = sub_from ic r repl None s"

section \<open>EnhancedScanner\<close>

subsection \<open>The extraction patterns\<close>

definition quote :: atom where
  "quote = OneOf [CChar (CHR 0x22), CChar (CHR 0x27)]"

definition not_quote :: atom where
  "not_quote = NoneOf [CChar (CHR 0x22), CChar (CHR 0x27)]"

text \<open>
  \<^verbatim>\<open>https?://(?:discord(?:app)?\.com|ptb\.discord\.com)/api/webhooks/\d+/[\w-]+\<close>
\<close>

definition webhook_url_pattern :: rx where
  "webhook_url_pattern =
     seqs [Lit ''http'', Opt (Lit ''s''), Lit ''://'',
           Alt (seqs [Lit ''discord'', Opt (Lit ''app''), Lit ''.com'']) (Lit ''ptb.discord.com''),
           Lit ''/api/webhooks/'', Plus (OneOf [CDigit]), Lit ''/'',
           Plus (OneOf [CWord, CChar CHR ''-''])]"

text \<open>
  The tail shared by the key-value patterns, \<^verbatim>\<open>\s*[:=]\s*["\'](...)["\']\<close>, with the
  content of group 1 as parameter.
\<close>

definition assigned :: "rx \<Rightarrow> rx" where
  "assigned g =
     seqs [Star (OneOf [CSpace]), Atom (OneOf [CChar CHR '':'', CChar CHR ''='']),
           Star (OneOf [CSpace]), Atom quote, Group g, Atom quote]"

text \<open>
  In the order of the source:
  \<^verbatim>\<open>["\']webhook[_\s-]*url?["\']\s*[:=]\s*["\']([^"\']+)["\']\<close>,
  \<^verbatim>\<open>\bwebhook\s*[:=]\s*["\']([^"\']+)["\']\<close>,
  \<^verbatim>\<open>\bwebhook_?url\s*[:=]\s*["\']([^"\']+)["\']\<close>,
  \<^verbatim>\<open>\bwebhookurl\s*[:=]\s*["\']([^"\']+)["\']\<close>,
  \<^verbatim>\<open>webhook["\']?\s*[:=]\s*["\']([^"\']+)["\']\<close>,
  \<^verbatim>\<open>["\']url["\']\s*[:=]\s*["\'](https?://discord[^"\']+)["\']\<close>.
\<close>

definition webhook_value_patterns :: "rx list" where
  "webhook_value_patterns =
     [seqs [Atom quote, Lit ''webhook'', Star (OneOf [CChar CHR ''_'', CSpace, CChar CHR ''-'']),
            Lit ''ur'', Opt (Lit ''l''), Atom quote, assigned (Plus not_quote)],
      seqs [WordB, Lit ''webhook'', assigned (Plus not_quote)],
      seqs [WordB, Lit ''webhook'', Opt (Lit ''_''), Lit ''url'', assigned (Plus not_quote)],
      seqs [WordB, Lit ''webhookurl'', assigned (Plus not_quote)],
      seqs [Lit ''webhook'', Opt (Atom quote), assigned (Plus not_quote)],
      seqs [Atom quote, Lit ''url'', Atom quote,
            assigned (seqs [Lit ''http'', Opt (Lit ''s''), Lit ''://discord'', Plus not_quote])]]"

subsection \<open>The indexes\<close>

text \<open>
  \<open>webhooks_by_resource\<close> is a \<open>defaultdict(set)\<close> and \<open>file_occurrences\<close> a
  \<open>defaultdict(list)\<close>: dicts as item lists in insertion order, a missing key reading
  as the empty set or list.
\<close>

record scanner =
  webhooks_by_resource :: "(string \<times> string set) list"
  file_occurrences :: "(string \<times> (path \<times> string) list) list"
  files_scanned :: nat
  webhooks_found :: nat
  files_with_webhooks :: nat
  resources_found :: "string set"

definition new_scanner :: scanner where
  "new_scanner = \<lparr>webhooks_by_resource = [], file_occurrences = [], files_scanned = 0,
                   webhooks_found = 0, files_with_webhooks = 0, resources_found = {}\<rparr>"

definition urls_of :: "(string \<times> string set) list \<Rightarrow> string \<Rightarrow> string set" where
  "urls_of index resource_name =
     (case map_of index resource_name of None \<Rightarrow> {} | Some urls \<Rightarrow> urls)"

text \<open>The four statements executed for an accepted candidate.\<close>

definition record_hit :: "path \<Rightarrow> string \<Rightarrow> string \<Rightarrow> scanner \<Rightarrow> scanner" where
  "record_hit file_path resource_name webhook_url sc =
     sc\<lparr>webhooks_by_resource :=
           AList.update resource_name
             (insert webhook_url (urls_of (webhooks_by_resource sc) resource_name))
             (webhooks_by_resource sc),
         file_occurrences :=
           AList.update webhook_url
             (occurrences_of (file_occurrences sc) webhook_url @ [(file_path, resource_name)])
             (file_occurrences sc),
         webhooks_found := webhooks_found sc + 1,
         resources_found := insert resource_name (resources_found sc)\<rparr>"

text \<open>
  A candidate is \<open>match.group(0)\<close> or \<open>match.group(1)\<close>; the latter is \<open>None\<close> for a
  group that took no part in the match, which the validator rejects as it rejects the
  empty string.
\<close>

definition valid_candidate :: "string option \<Rightarrow> py_error + bool" where
  "valid_candidate c = (case c of None \<Rightarrow> Inr False | Some url \<Rightarrow> is_valid_webhook url)"

text \<open>
  The loops over the matches.  The state carried along is the scanner and
  \<open>found_any\<close>; an exception ends the loops with the state reached, since the
  surrounding \<open>except\<close> drops it.
\<close>

fun add_candidates ::
  "path \<Rightarrow> string \<Rightarrow> string option list \<Rightarrow> scanner \<Rightarrow> bool \<Rightarrow>
   py_error option \<times> scanner \<times> bool" where
  "add_candidates file_path resource_name [] sc found_any = (None, sc, found_any)"
| "add_candidates file_path resource_name (c # cs) sc found_any =
     (case valid_candidate c of
        Inl e \<Rightarrow> (Some e, sc, found_any)
      | Inr ok \<Rightarrow>
          if ok
          then (case c of
                  None \<Rightarrow> add_candidates file_path resource_name cs sc found_any
                | Some webhook_url \<Rightarrow>
                    add_candidates file_path resource_name cs
                      (record_hit file_path resource_name webhook_url sc) True)
          else add_candidates file_path resource_name cs sc found_any)"

text \<open>
  The candidates of a file in the order the source visits them: the matches of the URL
  pattern, then those of each key-value pattern in turn.
\<close>

definition candidates :: "string \<Rightarrow> string option list" where
  "candidates content =
     map (\<lambda>m. Some (fst m)) (finditer True webhook_url_pattern content) @
     concat (map (\<lambda>pattern. map snd (finditer True pattern content)) webhook_value_patterns)"

definition scan_file :: "path \<Rightarrow> filesystem \<Rightarrow> path \<Rightarrow> scanner \<Rightarrow> scanner" where
  "scan_file base_path fs file_path sc =
     (case read_text fs file_path of
        Inl e \<Rightarrow> sc
      | Inr content \<Rightarrow>
          let resource_name = extract_resource_name base_path file_path
          in case add_candidates file_path resource_name (candidates content) sc False of
               (Some e, sc', found_any) \<Rightarrow> sc'
             | (None, sc', found_any) \<Rightarrow>
                 if found_any
                 then sc'\<lparr>files_with_webhooks := files_with_webhooks sc' + 1\<rparr>
                 else sc')"

text \<open>\<open>scan\<close> over the files the walk of the tree yields, in that order.\<close>

definition scan :: "path \<Rightarrow> filesystem \<Rightarrow> path list \<Rightarrow> scanner \<Rightarrow> scanner" where
  "scan base_path fs file_list sc =
     (fold (scan_file base_path fs) file_list sc)\<lparr>files_scanned := length file_list\<rparr>"

subsection \<open>Example data for scanning\<close>

definition example_assignment :: string where
  "example_assignment = ''webhook = '' @ [CHR 0x22] @ example_old @ [CHR 0x22]"

definition example_bare :: string where
  "example_bare = ''-- '' @ example_old"

definition example_file3 :: path where
  "example_file3 = [''srv'', ''resources'', ''shop'', ''alerts.lua'']"

definition example_foreign :: string where
  "example_foreign =
     ''https://notdiscord.com/api/webhooks/12345678901234567/aaaaaaaaaaaaaaaaaaaaaaaaaaaaaaaaaaaaaaaaaaaaaaaaaa''"

definition example_foreign_assignment :: string where
  "example_foreign_assignment = ''webhook = '' @ [CHR 0x22] @ example_foreign @ [CHR 0x22]"

section \<open>WebhookCreator\<close>

subsection \<open>\_sanitize\_name\<close>

definition sanitize_name :: "string \<Rightarrow> string" where
  "sanitize_name name0 =
     (let name = lower name0;
          name = re_sub True (seqs [WordB, Lit ''discord'', WordB]) ''disc'' name;
          name = re_sub True (seqs [WordB, Lit ''clyde'', WordB]) ''assistant'' name;
          name = re_sub False (Plus (OneOf [CSpace, CChar CHR ''_''])) ''-'' name;
          name = re_sub False
                   (Atom (NoneOf [CRange CHR ''a'' CHR ''z'', CRange CHR ''0'' CHR ''9'',
                                  CChar CHR ''-''])) [] name;
          name = re_sub False (Plus (Ch CHR ''-'')) ''-'' name;
          name = strip_chars (\<lambda>c. c = CHR ''-'') name
      in if name \<noteq> [] then take 100 name else ''resource-logs'')"

subsection \<open>The guild\<close>

text \<open>
  The remote platform as the program sees it: the categories and text channels of the
  guild, and the webhooks created so far.  A remote call may fail with
  \<open>HTTPException\<close>: \<open>fails k\<close> tells whether the \<open>k\<close>-th remote call does, so that any
  pattern of failures is an instance; \<open>channel_calls\<close> counts the calls that ask for
  a new channel.  A call that fails changes nothing on the platform.  \<open>hook_url k\<close> is the URL the platform gives the webhook created by call
  \<open>k\<close>.
\<close>

record channel =
  ch_id :: nat
  ch_name :: string
  ch_category :: "nat option"

record webhook =
  wh_channel :: nat
  wh_name :: string
  wh_url :: string

record guild =
  categories :: "nat list"
  text_channels :: "channel list"
  webhooks :: "webhook list"
  next_id :: nat
  calls :: nat
  channel_calls :: nat
  fails :: "nat \<Rightarrow> bool"
  hook_url :: "nat \<Rightarrow> string"

text \<open>\<open>guild.get_channel(id)\<close>: a channel of any kind with that id, or \<open>None\<close>.\<close>

definition get_channel :: "guild \<Rightarrow> nat \<Rightarrow> bool" where
  "get_channel g cid = (cid \<in> set (categories g) \<or> cid \<in> ch_id ` set (text_channels g))"

text \<open>\<open>discord.utils.get(guild.text_channels, name=..., category_id=...)\<close>.\<close>

definition find_text_channel :: "guild \<Rightarrow> string \<Rightarrow> nat \<Rightarrow> channel option" where
  "find_text_channel g name cid =
     find (\<lambda>c. ch_name c = name \<and> ch_category c = Some cid) (text_channels g)"

text \<open>
  \<open>guild.create_text_channel(name=..., category=...)\<close>; the platform refuses a parent
  that is not a category.
\<close>

definition create_text_channel :: "guild \<Rightarrow> string \<Rightarrow> nat \<Rightarrow> (py_error + channel) \<times> guild" where
  "create_text_channel g name cid =
     (let g1 = g\<lparr>calls := calls g + 1, channel_calls := channel_calls g + 1\<rparr>
      in if fails g (calls g) \<or> cid \<notin> set (categories g) then (Inl HTTPException, g1)
         else let ch = \<lparr>ch_id = next_id g, ch_name = name, ch_category = Some cid\<rparr>
              in (Inr ch, g1\<lparr>text_channels := text_channels g @ [ch], next_id := next_id g + 1\<rparr>))"

definition create_webhook :: "guild \<Rightarrow> channel \<Rightarrow> string \<Rightarrow> (py_error + string) \<times> guild" where
  "create_webhook g ch name =
     (let g1 = g\<lparr>calls := calls g + 1\<rparr>
      in if fails g (calls g) then (Inl HTTPException, g1)
         else let url = hook_url g (calls g)
              in (Inr url,
                  g1\<lparr>webhooks := webhooks g @
                        [\<lparr>wh_channel = ch_id ch, wh_name = name, wh_url = url\<rparr>]\<rparr>))"

subsection \<open>create\_all\<close>

record channel_record =
  cr_name :: string
  cr_id :: nat
  cr_resource :: string
  cr_webhook_count :: nat

record creator =
  webhook_mappings :: "(string \<times> string) list"
  created_channels :: "channel_record list"

definition new_creator :: creator where
  "new_creator = \<lparr>webhook_mappings = [], created_channels = []\<rparr>"

text \<open>
  The inner loop, over \<open>enumerate(sorted(old_webhooks), 1)\<close>.  It stops at the first
  call that raises, with what it has recorded so far.
\<close>

fun create_webhooks ::
  "string \<Rightarrow> nat \<Rightarrow> channel \<Rightarrow> (nat \<times> string) list \<Rightarrow> guild \<times> creator \<Rightarrow>
   py_error option \<times> guild \<times> creator" where
  "create_webhooks resource_name count ch [] (g, cr) = (None, g, cr)"
| "create_webhooks resource_name count ch ((webhook_idx, old_url) # rest) (g, cr) =
     (let webhook_name =
            (if count = 1 then resource_name
             else resource_name @ ''-'' @ str_nat webhook_idx)
      in case create_webhook g ch webhook_name of
           (Inl e, g1) \<Rightarrow> (Some e, g1, cr)
         | (Inr url, g1) \<Rightarrow>
             create_webhooks resource_name count ch rest
               (g1, cr\<lparr>webhook_mappings := AList.update old_url url (webhook_mappings cr)\<rparr>))"

text \<open>
  The body of the outer loop for one resource.  The result \<open>Some False\<close> is the
  \<open>return False\<close> of the missing category; \<open>None\<close> is the end of the body or a
  \<open>continue\<close> after a caught exception.
\<close>

definition provision ::
  "nat \<Rightarrow> string \<times> string set \<Rightarrow> guild \<times> creator \<Rightarrow> bool option \<times> guild \<times> creator" where
  "provision category_id item = (\<lambda>(g, cr).
     case item of (resource_name, old_webhooks) \<Rightarrow>
       let channel_name = sanitize_name (resource_name @ ''-logs'')
       in if \<not> get_channel g category_id then (Some False, g, cr)
          else
            (case (case find_text_channel g channel_name category_id of
                     Some existing_channel \<Rightarrow> (Inr existing_channel, g)
                   | None \<Rightarrow> create_text_channel g channel_name category_id) of
               (Inl e, g1) \<Rightarrow> (None, g1, cr)
             | (Inr ch, g1) \<Rightarrow>
                 let cr1 = cr\<lparr>created_channels := created_channels cr @
                               [\<lparr>cr_name = channel_name, cr_id = ch_id ch,
                                 cr_resource = resource_name,
                                 cr_webhook_count = card old_webhooks\<rparr>]\<rparr>
                 in (case create_webhooks resource_name (card old_webhooks) ch
                            (zip [1 ..< Suc (card old_webhooks)]
                                 (sorted_list_of_set old_webhooks))
                            (g1, cr1) of
                       (e, g2, cr2) \<Rightarrow> (None, g2, cr2))))"

fun create_loop ::
  "nat \<Rightarrow> (string \<times> string set) list \<Rightarrow> guild \<times> creator \<Rightarrow> bool \<times> guild \<times> creator" where
  "create_loop category_id [] (g, cr) = (True, g, cr)"
| "create_loop category_id (item # rest) (g, cr) =
     (case provision category_id item (g, cr) of
        (Some b, g1, cr1) \<Rightarrow> (b, g1, cr1)
      | (None, g1, cr1) \<Rightarrow> create_loop category_id rest (g1, cr1))"

text \<open>\<open>sorted(webhooks_by_resource.items())\<close>: the keys are distinct, so the items are
  ordered by resource name.\<close>

definition create_all ::
  "nat \<Rightarrow> (string \<times> string set) list \<Rightarrow> guild \<times> creator \<Rightarrow> bool \<times> guild \<times> creator" where
  "create_all category_id by_resource gc =
     create_loop category_id (sort_key fst by_resource) gc"


subsection \<open>Example data for provisioning\<close>

definition example_hook_url :: "nat \<Rightarrow> string" where
  "example_hook_url k =
     ''https://discord.com/api/webhooks/90000000000000000'' @ str_nat k @ ''/'' @
     replicate 50 CHR ''B''"

text \<open>A guild with the category 1 and no channels, whose remote calls fail as \<open>f\<close> says.\<close>

definition example_guild :: "(nat \<Rightarrow> bool) \<Rightarrow> guild" where
  "example_guild f =
     \<lparr>categories = [1], text_channels = [], webhooks = [], next_id = 100, calls = 0,
      channel_calls = 0, fails = f, hook_url = example_hook_url\<rparr>"

definition never :: "nat \<Rightarrow> bool" where
  "never k = False"

definition only_at :: "nat \<Rightarrow> nat \<Rightarrow> bool" where
  "only_at n k = (k = n)"

definition example_old2 :: string where
  "example_old2 =
     ''https://discord.com/api/webhooks/123456789012345679/CCCCCCCCCCCCCCCCCCCCCCCCCCCCCCCCCCCCCCCCCCCCCCCCCC''"

subsection \<open>Vocabulary for the provisioning claims\<close>

text \<open>
  The record \<open>create_all\<close> appends for a resource provisioned on channel \<open>ch\<close>, and
  the statement that the resource's channel name is that of a text channel inside the
  category.
\<close>

definition rec_of :: "string \<Rightarrow> string set \<Rightarrow> channel \<Rightarrow> channel_record" where
  "rec_of r urls ch =
     \<lparr>cr_name = sanitize_name (r @ ''-logs''), cr_id = ch_id ch, cr_resource = r,
      cr_webhook_count = card urls\<rparr>"

definition has_channel :: "guild \<Rightarrow> nat \<Rightarrow> string \<Rightarrow> bool" where
  "has_channel g cat r = (find_text_channel g (sanitize_name (r @ ''-logs'')) cat \<noteq> None)"

text \<open>The guild and the creator a run of \<open>create_all\<close> ends with.\<close>

definition run_guild :: "bool \<times> guild \<times> creator \<Rightarrow> guild" where
  "run_guild r = fst (snd r)"

definition run_creator :: "bool \<times> guild \<times> creator \<Rightarrow> creator" where
  "run_creator r = snd (snd r)"

section \<open>The command\<close>

text \<open>
  The body of the \<open>scan-webhooks\<close> command up to the report: scan; stop if nothing was
  found; provision; stop if that returned \<open>False\<close>; rewrite.  An exception raised by
  a stage is caught by the command's own \<open>except\<close>, which reports it.
  \<open>create_backups\<close> is the constant \<open>True\<close> of the configuration class, and
  \<open>order\<close> is the iteration order of the set of files to update.
\<close>

datatype outcome = NoWebhooks | ProvisioningFailed | Raised py_error | Completed

definition scan_webhooks ::
  "path \<Rightarrow> nat \<Rightarrow> string \<Rightarrow> string \<Rightarrow> path list \<Rightarrow> path list \<Rightarrow> filesystem \<times> guild \<Rightarrow>
   outcome \<times> filesystem \<times> guild \<times> creator \<times> update_stats" where
  "scan_webhooks base_path category_id backup_root timestamp file_list order = (\<lambda>(fs, g).
     let sc = scan base_path fs file_list new_scanner
     in if webhooks_by_resource sc = [] then (NoWebhooks, fs, g, new_creator, no_stats)
        else (case create_all category_id (webhooks_by_resource sc) (g, new_creator) of
                (success, g1, cr) \<Rightarrow>
                  if \<not> success then (ProvisioningFailed, fs, g1, cr, no_stats)
                  else (case update_all True backup_root timestamp (webhook_mappings cr) order
                               (fs, no_stats) of
                          Inl e \<Rightarrow> (Raised e, fs, g1, cr, no_stats)
                        | Inr (fs1, stats) \<Rightarrow> (Completed, fs1, g1, cr, stats))))"

section \<open>Properties of text operations\<close>

lemma webhook_domains_hosts: "webhook_domains = map (\<lambda>h. h @ webhook_path) accepted_hosts"
  by (simp add: webhook_domains_def accepted_hosts_def webhook_path_def)

lemma str_contains_iff: "str_contains sub s \<longleftrightarrow> (\<exists>p q. s = p @ sub @ q)"
proof (induction s)
  case Nil
  then show ?case by auto
next
  case (Cons c cs)
  show ?case
  proof
    assume "str_contains sub (c # cs)"
    then consider "prefix sub (c # cs)" | "str_contains sub cs" by auto
    then show "\<exists>p q. c # cs = p @ sub @ q"
    proof cases
      case 1
      then obtain q where "c # cs = sub @ q" by (auto simp: prefix_def)
      then have "c # cs = [] @ sub @ q" by simp
      then show ?thesis by blast
    next
      case 2
      with Cons.IH obtain p q where "cs = p @ sub @ q" by blast
      then have "c # cs = (c # p) @ sub @ q" by simp
      then show ?thesis by blast
    qed
  next
    assume "\<exists>p q. c # cs = p @ sub @ q"
    then obtain p q where pq: "c # cs = p @ sub @ q" by blast
    show "str_contains sub (c # cs)"
    proof (cases p)
      case Nil
      with pq have "prefix sub (c # cs)" by (simp add: prefix_def)
      then show ?thesis by simp
    next
      case (Cons a p')
      with pq have "cs = p' @ sub @ q" by simp
      with Cons.IH have "str_contains sub cs" by blast
      then show ?thesis by simp
    qed
  qed
qed

lemma split_on_nonempty: "split_on d s \<noteq> []"
  by (induction s) (auto split: list.splits)

lemma split_on_no_sep: "d \<notin> set s \<Longrightarrow> split_on d s = [s]"
  by (induction s) auto

lemma split_on_append: "d \<notin> set a \<Longrightarrow> split_on d (a @ d # b) = a # split_on d b"
  by (induction a) auto

lemma from_end_1: "xs \<noteq> [] \<Longrightarrow> from_end xs 1 = Inr (last xs)"
  by (simp add: from_end_def last_conv_nth Suc_le_eq)

lemma from_end_2: "2 \<le> length xs \<Longrightarrow> from_end xs 2 = Inr (xs ! (length xs - 2))"
  by (simp add: from_end_def)

lemma token_char_iff: "token_char c \<longleftrightarrow> isalnum c \<or> c = CHR ''-'' \<or> c = CHR ''_''"
  by (auto simp: token_char_def prefix_def)

lemma is_valid_webhook_char:
  "is_valid_webhook u = Inr
     (50 \<le> length u \<and>
      (\<exists>h \<in> set accepted_hosts. \<exists>p s. lower u = p @ h @ webhook_path @ s) \<and>
      7 \<le> length (split_on CHR ''/'' u) \<and>
      (let segs = split_on CHR ''/'' u; wid = segs ! (length segs - 2); tok = last segs
       in wid \<noteq> [] \<and> (\<forall>c \<in> set wid. isdigit c) \<and> 17 \<le> length wid \<and>
          50 \<le> length tok \<and> (\<forall>c \<in> set tok. isalnum c \<or> c = CHR ''-'' \<or> c = CHR ''_'')))"
proof -
  let ?segs = "split_on CHR ''/'' u"
  have dom: "list_ex (\<lambda>domain. str_contains domain (lower u)) webhook_domains \<longleftrightarrow>
      (\<exists>h \<in> set accepted_hosts. \<exists>p s. lower u = p @ h @ webhook_path @ s)"
    by (simp add: webhook_domains_hosts list_ex_iff str_contains_iff)
  show ?thesis
  proof (cases "7 \<le> length ?segs")
    case True
    then have ne: "?segs \<noteq> []" and two: "2 \<le> length ?segs" by auto
    show ?thesis
      unfolding is_valid_webhook_def Let_def dom from_end_1[OF ne] from_end_2[OF two]
      using True
      by (auto simp: str_isdigit_def list_all_iff token_char_iff)
  next
    case False
    then show ?thesis
      unfolding is_valid_webhook_def Let_def dom by auto
  qed
qed

lemma lower_append: "lower (a @ b) = lower a @ lower b"
  by (simp add: lower_def)

lemma lower_hosts: "h \<in> set accepted_hosts \<Longrightarrow> lower (''https://'' @ h @ webhook_path) = ''https://'' @ h @ webhook_path"
  by (auto simp: accepted_hosts_def webhook_path_def lower_def lower_char_def code_def)

lemma split_composed:
  assumes "h \<in> set accepted_hosts" "CHR ''/'' \<notin> set wid" "CHR ''/'' \<notin> set tok"
  shows "split_on CHR ''/'' (''https://'' @ h @ webhook_path @ wid @ ''/'' @ tok) =
     [''https:'', [], h, ''api'', ''webhooks'', wid, tok]"
proof -
  have h: "CHR ''/'' \<notin> set h" using assms(1) by (auto simp: accepted_hosts_def)
  have "split_on CHR ''/'' (wid @ ''/'' @ tok) = [wid, tok]"
    using assms(2,3) by (simp add: split_on_append split_on_no_sep)
  then have "split_on CHR ''/'' (h @ webhook_path @ wid @ ''/'' @ tok) = [h, ''api'', ''webhooks'', wid, tok]"
    using h by (simp add: webhook_path_def split_on_append)
  then show ?thesis by simp
qed

lemma composed_valid:
  assumes "h \<in> set accepted_hosts" "CHR ''/'' \<notin> set wid" "CHR ''/'' \<notin> set tok"
  shows "is_valid_webhook (''https://'' @ h @ webhook_path @ wid @ ''/'' @ tok) =
     Inr (wid \<noteq> [] \<and> list_all isdigit wid \<and> 17 \<le> length wid \<and> 50 \<le> length tok \<and> list_all token_char tok)"
proof -
  let ?u = "''https://'' @ h @ webhook_path @ wid @ ''/'' @ tok"
  have len: "length ?u \<ge> 34 + length wid + length tok"
    using assms(1) by (auto simp: accepted_hosts_def webhook_path_def)
  define pre where "pre = ''https://'' @ h @ webhook_path"
  define rest where "rest = wid @ ''/'' @ tok"
  have u: "?u = pre @ rest" by (simp add: pre_def rest_def)
  have "lower pre = pre" unfolding pre_def by (rule lower_hosts[OF assms(1)])
  then have "lower ?u = pre @ lower rest" unfolding u lower_append by simp
  then have "lower ?u = ''https://'' @ (h @ webhook_path) @ lower rest" by (simp add: pre_def)
  then have "str_contains (h @ webhook_path) (lower ?u)"
    unfolding str_contains_iff by blast
  then have dom: "list_ex (\<lambda>domain. str_contains domain (lower ?u)) webhook_domains"
    using assms(1) unfolding webhook_domains_hosts list_ex_iff by auto
  have ne: "?u \<noteq> []" by simp
  show ?thesis
  proof (cases "length ?u < 50")
    case True
    then have "\<not> (17 \<le> length wid \<and> 50 \<le> length tok)" using len by linarith
    moreover have "is_valid_webhook ?u = Inr False"
      unfolding is_valid_webhook_def using True by simp
    ultimately show ?thesis by auto
  next
    case False
    show ?thesis
      unfolding is_valid_webhook_def Let_def split_composed[OF assms]
      using False dom
      by (auto simp: from_end_def str_isdigit_def)
  qed
qed


section \<open>Properties of the attributor\<close>

lemma relative_to_under: "relative_to (base @ parts) base = Inr parts"
  by (simp add: relative_to_def)

lemma prefix_single: "prefix [c] s \<longleftrightarrow> s \<noteq> [] \<and> hd s = c"
  by (cases s) auto

lemma suffix_single: "suffix [c] s \<longleftrightarrow> s \<noteq> [] \<and> last s = c"
  by (cases s rule: rev_cases) (auto simp: suffix_def)

lemma bracketed_iff: "prefix ''['' seg \<and> suffix '']'' seg \<longleftrightarrow> bracketed seg"
  unfolding prefix_single suffix_single bracketed_def by blast

lemma clean_segment_code:
  "(let name' = strip_chars isspace (strip_chars (\<lambda>c. c \<in> set ''[]'') name)
    in if name' \<noteq> [] then name' else ''unknown'') = clean_segment name"
  by (simp add: clean_segment_def Let_def)

lemma index_of_first: "x \<notin> set pre \<Longrightarrow> index_of x (pre @ x # post) = length pre"
  by (induction pre) (auto simp: index_of_def)

lemma clean_segment_nonempty: "clean_segment seg \<noteq> []"
  by (simp add: clean_segment_def Let_def)

lemma clean_empty: "clean_segment [] = ''unknown''"
  by (simp add: clean_segment_def strip_chars_def)

lemma extract_unfold:
  assumes "parts \<noteq> []"
    and "r1 = (if ''resources'' \<in> set parts
                  then let res_idx = index_of ''resources'' parts
                       in if res_idx + 1 < length parts then Some (parts ! (res_idx + 1)) else None
                  else None)"
  shows "extract_resource_name base (base @ parts) =
     (case (if \<not> truthy r1
            then if bracketed (hd parts)
                 then if 2 \<le> length parts then Some (parts ! 1) else Some (hd parts)
                 else Some (hd parts)
            else r1) of
        None \<Rightarrow> ''unknown''
      | Some name \<Rightarrow> if name \<noteq> [] then clean_segment name else ''unknown'')"
proof -
  have one: "1 \<le> length parts" using assms(1) by (cases parts) auto
  have hd0: "parts ! 0 = hd parts" using assms(1) by (simp add: hd_conv_nth)
  show ?thesis
    unfolding extract_resource_name_def relative_to_under sum.case Let_def
      assms(2)[symmetric, unfolded Let_def] clean_segment_code[unfolded Let_def] bracketed_iff hd0
    using assms(1) one by simp
qed

lemma extract_rule1:
  assumes "''resources'' \<notin> set pre" "seg \<noteq> []"
  shows "extract_resource_name base (base @ pre @ ''resources'' # seg # post) = clean_segment seg"
proof -
  let ?parts = "pre @ ''resources'' # seg # post"
  have idx: "index_of ''resources'' ?parts = length pre" by (rule index_of_first[OF assms(1)])
  have nth: "?parts ! (length pre + 1) = seg" by (simp add: nth_append)
  have r1: "Some seg = (if ''resources'' \<in> set ?parts
                  then let res_idx = index_of ''resources'' ?parts
                       in if res_idx + 1 < length ?parts then Some (?parts ! (res_idx + 1)) else None
                  else None)"
    unfolding Let_def idx nth by simp
  have ne: "?parts \<noteq> []" by simp
  show ?thesis
    unfolding extract_unfold[OF ne r1] using assms(2) by (simp add: truthy_def)
qed

lemma no_follower:
  assumes "\<not> (\<exists>pre seg post. parts = pre @ ''resources'' # seg # post)"
  shows "None = (if ''resources'' \<in> set parts
                  then let res_idx = index_of ''resources'' parts
                       in if res_idx + 1 < length parts then Some (parts ! (res_idx + 1)) else None
                  else None)"
proof (cases "''resources'' \<in> set parts")
  case False
  then show ?thesis by simp
next
  case True
  then obtain pre post where p: "parts = pre @ ''resources'' # post" "''resources'' \<notin> set pre"
    by (meson split_list_first)
  then have idx: "index_of ''resources'' parts = length pre" by (simp add: index_of_first)
  have "post = []"
  proof (cases post)
    case (Cons seg post')
    with p(1) assms show ?thesis by blast
  qed simp
  with p(1) have "\<not> index_of ''resources'' parts + 1 < length parts" unfolding idx by simp
  then show ?thesis using True by (simp add: Let_def)
qed

lemma extract_rule23:
  assumes "\<not> (\<exists>pre seg post. first # rest = pre @ ''resources'' # seg # post)" "first \<noteq> []" "[] \<notin> set rest"
  shows "extract_resource_name base (base @ first # rest) =
     clean_segment (if bracketed first then (case rest of [] \<Rightarrow> first | second # _ \<Rightarrow> second) else first)"
proof -
  have ne: "first # rest \<noteq> []" by simp
  show ?thesis
    unfolding extract_unfold[OF ne no_follower[OF assms(1)]]
    using assms(2,3) by (cases rest) (auto simp: truthy_def)
qed

lemma extract_empty: "extract_resource_name base base = ''unknown''"
  by (simp add: extract_resource_name_def relative_to_def)

lemma extract_outside: "\<not> prefix base p \<Longrightarrow> extract_resource_name base p = ''unknown''"
  by (simp add: extract_resource_name_def relative_to_def)

lemma extract_nonempty: "extract_resource_name base p \<noteq> []"
  by (auto simp: extract_resource_name_def Let_def split: sum.splits option.splits)

lemma follower_iff:
  "(\<exists>pre seg post. parts = pre @ x # seg # post) \<longleftrightarrow> x \<in> set (butlast parts)"
proof
  assume "\<exists>pre seg post. parts = pre @ x # seg # post"
  then obtain pre seg post where "parts = pre @ x # seg # post" by blast
  then have "butlast parts = pre @ x # butlast (seg # post)" by (simp add: butlast_append)
  then show "x \<in> set (butlast parts)" by simp
next
  assume a: "x \<in> set (butlast parts)"
  then have ne: "parts \<noteq> []" by auto
  from a obtain pre r where b: "butlast parts = pre @ x # r" by (meson split_list)
  have "parts = butlast parts @ [last parts]" using ne by simp
  then have p: "parts = pre @ x # (r @ [last parts])" using b by simp
  obtain seg post where "r @ [last parts] = seg # post" by (cases r) auto
  with p have "parts = pre @ x # seg # post" by simp
  then show "\<exists>pre seg post. parts = pre @ x # seg # post" by blast
qed

section \<open>Properties of the file system and the updater\<close>

lemma free_backup_fresh: "\<not> path_exists fs (free_backup fs dir stem sfx cand k)"
  by (induction fs dir stem sfx cand k rule: free_backup.induct)
     (subst free_backup.simps, simp)

lemma free_backup_free: "\<not> path_exists fs cand \<Longrightarrow> free_backup fs dir stem sfx cand k = cand"
  by (subst free_backup.simps) simp

lemma free_backup_form:
  "free_backup fs dir stem sfx cand k = cand \<or>
   (\<exists>j\<ge>k. free_backup fs dir stem sfx cand k = numbered dir stem sfx j)"
proof (induction fs dir stem sfx cand k rule: free_backup.induct)
  case (1 fs dir stem sfx cand k)
  show ?case
  proof (cases "path_exists fs cand")
    case False
    then show ?thesis by (simp add: free_backup_free)
  next
    case True
    then have eq: "free_backup fs dir stem sfx cand k =
        free_backup fs dir stem sfx (numbered dir stem sfx k) (k + 1)"
      by (subst free_backup.simps) simp
    from "1.IH" [OF True] show ?thesis
      unfolding eq by (metis le_add1 le_refl order_trans)
  qed
qed

lemma backup_target_fresh: "\<not> path_exists fs (backup_target fs dir p)"
  by (simp add: backup_target_def free_backup_fresh)

lemma backup_target_in_dir: "\<exists>n. backup_target fs dir p = dir @ [n]"
  using free_backup_form [of fs dir "path_stem p" "path_suffix p" "dir @ [path_name p]" 1]
  by (auto simp: backup_target_def numbered_def)

lemma backup_target_name:
  "backup_target fs dir p = dir @ [path_name p] \<or>
   (path_exists fs (dir @ [path_name p]) \<and>
    (\<exists>j\<ge>1. backup_target fs dir p = dir @ [path_stem p @ ''_'' @ str_nat j @ path_suffix p]))"
proof (cases "path_exists fs (dir @ [path_name p])")
  case False
  then show ?thesis by (simp add: backup_target_def free_backup_free)
next
  case True
  then show ?thesis
    using free_backup_form [of fs dir "path_stem p" "path_suffix p" "dir @ [path_name p]" 1]
    by (auto simp: backup_target_def numbered_def)
qed

lemma write_text_frame: "q \<noteq> p \<Longrightarrow> map_of (files (snd (write_text fs p c))) q = map_of (files fs) q"
  by (auto simp: write_text_def update_conv' split: wfault.splits)

lemma write_text_env:
  "unreadable (snd (write_text fs p c)) = unreadable fs"
  "wfault (snd (write_text fs p c)) = wfault fs"
  "mkdir_fails (snd (write_text fs p c)) = mkdir_fails fs"
  by (auto simp: write_text_def split: wfault.splits)

lemma write_text_ok:
  "wfault fs p = WriteOk \<Longrightarrow> write_text fs p c = (None, fs\<lparr>files := AList.update p c (files fs)\<rparr>)"
  by (simp add: write_text_def)

lemma write_text_open_fails: "wfault fs p = OpenFails \<Longrightarrow> write_text fs p c = (Some OSError, fs)"
  by (simp add: write_text_def)

lemma write_text_exists: "path_exists fs q \<Longrightarrow> path_exists (snd (write_text fs p c)) q"
  by (auto simp: write_text_def path_exists_def update_conv' split: wfault.splits)

text \<open>The two writes of update_file, as a composition.\<close>

lemma update_file_frame:
  assumes "q \<noteq> p" "q \<noteq> backup_target fs dir p"
  shows "map_of (files (fst (update_file cb p m (Some dir) (fs, st)))) q = map_of (files fs) q"
  using assms
  by (auto simp: update_file_def write_text_def update_conv'
      split: sum.splits prod.splits option.splits wfault.splits if_splits)

lemma update_file_frame_nobackup:
  assumes "q \<noteq> p"
  shows "map_of (files (fst (update_file cb p m None (fs, st)))) q = map_of (files fs) q"
  using assms
  by (auto simp: update_file_def write_text_def update_conv'
      split: sum.splits prod.splits option.splits wfault.splits if_splits)

lemma update_file_env:
  "unreadable (fst (update_file cb p m bd (fs, st))) = unreadable fs"
  "wfault (fst (update_file cb p m bd (fs, st))) = wfault fs"
  "mkdir_fails (fst (update_file cb p m bd (fs, st))) = mkdir_fails fs"
  by (auto simp: update_file_def write_text_def
      split: sum.splits prod.splits option.splits wfault.splits if_splits)

subsection \<open>Counting and replacing between delimiters\<close>

lemma prefix_delim: "d \<notin> set x \<Longrightarrow> prefix x (a @ d # b) \<longleftrightarrow> prefix x a"
proof
  assume d: "d \<notin> set x" and "prefix x (a @ d # b)"
  then consider "prefix x a" | us where "x = a @ us" "prefix us (d # b)"
    by (auto simp: prefix_append)
  then show "prefix x a"
  proof cases
    case 2
    then have "us = []" using d by (cases us) auto
    with 2 show ?thesis by simp
  qed
next
  assume "prefix x a"
  then show "prefix x (a @ d # b)" by (rule prefix_prefix)
qed


lemma prefix_head_delim: "x \<noteq> [] \<Longrightarrow> d \<notin> set x \<Longrightarrow> \<not> prefix x (d # b)"
  by (cases x) auto



lemma str_contains_delim:
  "x \<noteq> [] \<Longrightarrow> d \<notin> set x \<Longrightarrow>
   str_contains x (a @ d # b) \<longleftrightarrow> str_contains x a \<or> str_contains x b"
proof (induction a)
  case Nil
  then show ?case by (simp add: prefix_head_delim)
next
  case (Cons c cs)
  have "prefix x ((c # cs) @ d # b) \<longleftrightarrow> prefix x (c # cs)"
    by (rule prefix_delim [OF Cons.prems(2)])
  with Cons show ?case by auto
qed





lemma contains_count_pos: "x \<noteq> [] \<Longrightarrow> str_contains x s \<Longrightarrow> 0 < count_from x s"
  by (induction x s rule: count_from.induct) auto

lemma contains_str_count_pos: "str_contains x s \<Longrightarrow> 0 < str_count s x"
  by (cases "x = []") (auto simp: str_count_def contains_count_pos)




subsection \<open>One file, and a run over many\<close>

lemma apply_single:
  "str_contains old c \<Longrightarrow> apply_mappings [(old, new)] (c, 0) = (str_replace c old new, str_count c old)"
  by simp

lemma apply_mappings_count_mono: "n \<le> snd (apply_mappings m (c, n))"
proof (induction m arbitrary: c n)
  case Nil
  then show ?case by simp
next
  case (Cons a m)
  obtain old new where a: "a = (old, new)" by (cases a)
  show ?case
    unfolding a using Cons [of n c] Cons [of "n + str_count c old" "str_replace c old new"]
    by (auto simp: le_trans [OF le_add1])
qed

lemma apply_mappings_unchanged:
  "snd (apply_mappings m (c, n)) = n \<Longrightarrow> fst (apply_mappings m (c, n)) = c"
proof (induction m arbitrary: c)
  case Nil
  then show ?case by simp
next
  case (Cons a m)
  obtain old new where a: "a = (old, new)" by (cases a)
  show ?case
  proof (cases "str_contains old c")
    case True
    then have "n < n + str_count c old" using contains_str_count_pos by simp
    also have "\<dots> \<le> snd (apply_mappings m (str_replace c old new, n + str_count c old))"
      by (rule apply_mappings_count_mono)
    finally have "snd (apply_mappings (a # m) (c, n)) \<noteq> n" using True a by simp
    with Cons.prems show ?thesis by simp
  next
    case False
    with Cons a show ?thesis by simp
  qed
qed

lemma read_text_exists: "read_text fs p = Inr c \<Longrightarrow> path_exists fs p \<and> map_of (files fs) p = Some c"
  by (auto simp: read_text_def path_exists_def split: option.splits if_splits)

lemma update_file_read_fails:
  "read_text fs p = Inl e \<Longrightarrow> update_file cb p m bd (fs, st) = (fs, st)"
  by (simp add: update_file_def)

lemma update_file_no_match:
  assumes "read_text fs p = Inr orig" "snd (apply_mappings m (orig, 0)) = 0"
  shows "update_file cb p m bd (fs, st) = (fs, st)"
proof -
  obtain content n where a: "apply_mappings m (orig, 0) = (content, n)"
    by (cases "apply_mappings m (orig, 0)")
  with assms(2) have "n = 0" by simp
  with a assms(1) show ?thesis by (simp add: update_file_def)
qed

lemma update_file_backup_open_fails:
  "wfault fs (backup_target fs dir p) = OpenFails \<Longrightarrow>
   update_file True p m (Some dir) (fs, st) = (fs, st)"
  by (simp add: update_file_def write_text_open_fails split: sum.splits prod.splits)

lemma update_file_ok:
  assumes "read_text fs p = Inr orig" "apply_mappings m (orig, 0) = (content, n)" "0 < n"
    "wfault fs (backup_target fs dir p) = WriteOk" "wfault fs p = WriteOk"
  shows "update_file True p m (Some dir) (fs, st) =
     (fs\<lparr>files := AList.update p content (AList.update (backup_target fs dir p) orig (files fs))\<rparr>,
      st\<lparr>files_backed_up := files_backed_up st + 1,
         files_updated := files_updated st + 1,
         replacements := replacements st + n\<rparr>)"
  using assms by (simp add: update_file_def write_text_def)

lemma update_file_ok_nobackup:
  assumes "read_text fs p = Inr orig" "apply_mappings m (orig, 0) = (content, n)" "0 < n"
    "wfault fs p = WriteOk" "bd = None \<or> \<not> cb"
  shows "update_file cb p m bd (fs, st) =
     (fs\<lparr>files := AList.update p content (files fs)\<rparr>,
      st\<lparr>files_updated := files_updated st + 1, replacements := replacements st + n\<rparr>)"
  using assms by (auto simp: update_file_def write_text_def split: option.splits)

lemma update_file_open_fails:
  assumes "wfault fs p = OpenFails"
  shows "map_of (files (fst (update_file cb p m bd (fs, st)))) p = map_of (files fs) p"
    and "files_updated (snd (update_file cb p m bd (fs, st))) = files_updated st"
    and "replacements (snd (update_file cb p m bd (fs, st))) = replacements st"
proof -
  have neq: "backup_target fs dir p \<noteq> p" if "read_text fs p = Inr c" for dir c
    using read_text_exists [OF that] backup_target_fresh [of fs dir p] by auto
  show "map_of (files (fst (update_file cb p m bd (fs, st)))) p = map_of (files fs) p"
    using assms neq
    by (auto simp: update_file_def write_text_def update_conv'
        split: sum.splits prod.splits option.splits wfault.splits if_splits)
  show "files_updated (snd (update_file cb p m bd (fs, st))) = files_updated st"
    using assms
    by (auto simp: update_file_def write_text_def
        split: sum.splits prod.splits option.splits wfault.splits if_splits)
  show "replacements (snd (update_file cb p m bd (fs, st))) = replacements st"
    using assms
    by (auto simp: update_file_def write_text_def
        split: sum.splits prod.splits option.splits wfault.splits if_splits)
qed

lemma update_file_keeps:
  assumes "path_exists fs q" "q \<noteq> p"
  shows "map_of (files (fst (update_file cb p m bd (fs, st)))) q = map_of (files fs) q"
proof (cases bd)
  case None
  then show ?thesis using assms(2) by (simp add: update_file_frame_nobackup)
next
  case (Some dir)
  have "q \<noteq> backup_target fs dir p" using assms(1) backup_target_fresh by blast
  then show ?thesis unfolding Some using assms(2) by (simp add: update_file_frame)
qed

lemma update_file_exists:
  "path_exists fs q \<Longrightarrow> path_exists (fst (update_file cb p m bd (fs, st))) q"
  by (auto simp: update_file_def write_text_def path_exists_def update_conv'
      split: sum.splits prod.splits option.splits wfault.splits if_splits)

lemma update_files_keeps:
  "path_exists (fst s) q \<Longrightarrow> q \<notin> set order \<Longrightarrow>
   map_of (files (fst (update_files cb m bd order s))) q = map_of (files (fst s)) q \<and>
   path_exists (fst (update_files cb m bd order s)) q"
proof (induction order arbitrary: s)
  case Nil
  then show ?case by simp
next
  case (Cons p ps)
  obtain fs st where s: "s = (fs, st)" by (cases s)
  let ?s1 = "update_file cb p m bd (fs, st)"
  have ex: "path_exists (fst ?s1) q" using Cons.prems(1) s by (simp add: update_file_exists)
  have keep: "map_of (files (fst ?s1)) q = map_of (files fs) q"
    using Cons.prems s by (simp add: update_file_keeps)
  from Cons.IH [OF ex] Cons.prems(2) keep show ?case by (simp add: s)
qed

lemma update_files_append:
  "update_files cb m bd (xs @ ys) s = update_files cb m bd ys (update_files cb m bd xs s)"
  by (induction xs arbitrary: s) auto

lemma update_file_env_pair:
  "unreadable (fst (update_file cb p m bd s)) = unreadable (fst s)"
  "wfault (fst (update_file cb p m bd s)) = wfault (fst s)"
  "mkdir_fails (fst (update_file cb p m bd s)) = mkdir_fails (fst s)"
  using update_file_env [of cb p m bd "fst s" "snd s"] by simp_all

lemma update_files_env:
  "unreadable (fst (update_files cb m bd order s)) = unreadable (fst s) \<and>
   wfault (fst (update_files cb m bd order s)) = wfault (fst s)"
  by (induction order arbitrary: s) (simp_all add: update_file_env_pair)

lemma update_file_outside:
  assumes "q \<noteq> p" "\<forall>dir n. bd = Some dir \<longrightarrow> q \<noteq> dir @ [n]"
  shows "map_of (files (fst (update_file cb p m bd s))) q = map_of (files (fst s)) q"
proof (cases bd)
  case None
  then show ?thesis
    using assms(1) update_file_frame_nobackup [of q p cb m "fst s" "snd s"] by simp
next
  case (Some dir)
  obtain n where "backup_target (fst s) dir p = dir @ [n]"
    using backup_target_in_dir by blast
  with assms(2) Some have "q \<noteq> backup_target (fst s) dir p" by auto
  then show ?thesis
    unfolding Some using assms(1) update_file_frame [of q p "fst s" dir cb m "snd s"] by simp
qed

lemma update_files_outside:
  assumes "q \<notin> set order" "\<forall>dir n. bd = Some dir \<longrightarrow> q \<noteq> dir @ [n]"
  shows "map_of (files (fst (update_files cb m bd order s))) q = map_of (files (fst s)) q"
  using assms(1)
proof (induction order arbitrary: s)
  case Nil
  then show ?case by simp
next
  case (Cons p ps)
  then have "q \<noteq> p" "q \<notin> set ps" by auto
  with Cons.IH [of "update_file cb p m bd s"] update_file_outside [OF _ assms(2), of p cb m s]
  show ?case by simp
qed

lemma update_file_target:
  assumes rd: "read_text fs g = Inr c" and wf: "wfault fs g = WriteOk"
    and wb: "\<forall>dir. bd = Some dir \<longrightarrow> cb \<longrightarrow> wfault fs (backup_target fs dir g) = WriteOk"
  shows "map_of (files (fst (update_file cb g m bd (fs, st)))) g = Some (fst (apply_mappings m (c, 0)))"
proof -
  obtain content n where a: "apply_mappings m (c, 0) = (content, n)"
    by (cases "apply_mappings m (c, 0)")
  show ?thesis
  proof (cases "n = 0")
    case True
    then have "snd (apply_mappings m (c, 0)) = 0" using a by simp
    then have "update_file cb g m bd (fs, st) = (fs, st)" "fst (apply_mappings m (c, 0)) = c"
      using rd by (simp_all add: update_file_no_match apply_mappings_unchanged)
    then show ?thesis using read_text_exists [OF rd] by simp
  next
    case False
    then have pos: "0 < n" by simp
    show ?thesis
    proof (cases "\<exists>dir. bd = Some dir \<and> cb")
      case True
      then obtain dir where bd: "bd = Some dir" and cb: cb by blast
      have "wfault fs (backup_target fs dir g) = WriteOk" using wb bd cb by blast
      from update_file_ok [OF rd a pos this wf, of st] show ?thesis
        using bd cb a by (simp add: update_conv')
    next
      case False
      then have "bd = None \<or> \<not> cb" by (cases bd) auto
      from update_file_ok_nobackup [OF rd a pos wf this, of st] show ?thesis
        using a by (simp add: update_conv')
    qed
  qed
qed

lemma read_text_cong:
  "map_of (files fs') g = map_of (files fs) g \<Longrightarrow> unreadable fs' = unreadable fs \<Longrightarrow>
   read_text fs' g = read_text fs g"
  by (simp add: read_text_def split: option.splits)

lemma update_files_target:
  assumes d: "distinct order" and g: "g \<in> set order"
    and rd: "read_text fs g = Inr c" and wf: "wfault fs g = WriteOk"
    and out: "\<forall>dir n. bd = Some dir \<longrightarrow> g \<noteq> dir @ [n]"
    and wb: "\<forall>dir fs'. bd = Some dir \<longrightarrow> cb \<longrightarrow> wfault fs (backup_target fs' dir g) = WriteOk"
  shows "map_of (files (fst (update_files cb m bd order (fs, st)))) g =
     Some (fst (apply_mappings m (c, 0)))"
proof -
  from g obtain ps1 ps2 where order: "order = ps1 @ g # ps2" by (meson split_list)
  with d have n1: "g \<notin> set ps1" and n2: "g \<notin> set ps2" by auto
  let ?s1 = "update_files cb m bd ps1 (fs, st)"
  have m1: "map_of (files (fst ?s1)) g = map_of (files fs) g"
    using update_files_outside [OF n1 out, of cb m "(fs, st)"] by simp
  have env1: "unreadable (fst ?s1) = unreadable fs" "wfault (fst ?s1) = wfault fs"
    using update_files_env [of cb m bd ps1 "(fs, st)"] by simp_all
  have rd1: "read_text (fst ?s1) g = Inr c"
    using read_text_cong [OF m1 env1(1)] rd by simp
  have wf1: "wfault (fst ?s1) g = WriteOk" using wf env1(2) by simp
  have wb1: "\<forall>dir. bd = Some dir \<longrightarrow> cb \<longrightarrow>
      wfault (fst ?s1) (backup_target (fst ?s1) dir g) = WriteOk"
    unfolding env1(2) using wb by blast
  let ?s2 = "update_file cb g m bd ?s1"
  have m2: "map_of (files (fst ?s2)) g = Some (fst (apply_mappings m (c, 0)))"
    using update_file_target [OF rd1 wf1 wb1, of m "snd ?s1"] by simp
  have "update_files cb m bd order (fs, st) = update_files cb m bd ps2 ?s2"
    unfolding order by (simp add: update_files_append)
  then show ?thesis
    using update_files_outside [OF n2 out, of cb m ?s2] m2 by simp
qed

section \<open>Properties of provisioning\<close>

lemma create_webhook_channels:
  "text_channels (snd (create_webhook g ch name)) = text_channels g \<and>
   categories (snd (create_webhook g ch name)) = categories g \<and>
   channel_calls (snd (create_webhook g ch name)) = channel_calls g \<and>
   fails (snd (create_webhook g ch name)) = fails g \<and>
   hook_url (snd (create_webhook g ch name)) = hook_url g"
  by (simp add: create_webhook_def Let_def)

lemma create_webhooks_guild:
  "create_webhooks r n ch items (g, cr) = (e, g', cr') \<Longrightarrow>
   text_channels g' = text_channels g \<and> categories g' = categories g \<and>
   channel_calls g' = channel_calls g \<and> created_channels cr' = created_channels cr"
proof (induction items arbitrary: g cr)
  case Nil
  then show ?case by simp
next
  case (Cons a items)
  obtain i u where a: "a = (i, u)" by (cases a)
  let ?name = "if n = 1 then r else r @ ''-'' @ str_nat i"
  obtain res g1 where cw: "create_webhook g ch ?name = (res, g1)"
    by (cases "create_webhook g ch ?name")
  have g1: "text_channels g1 = text_channels g \<and> categories g1 = categories g \<and>
      channel_calls g1 = channel_calls g"
    using create_webhook_channels [of g ch ?name] cw by simp
  show ?case
  proof (cases res)
    case (Inl err)
    with Cons.prems a cw g1 show ?thesis by (simp add: Let_def)
  next
    case (Inr url)
    with Cons.prems a cw
    have "create_webhooks r n ch items
        (g1, cr\<lparr>webhook_mappings := AList.update u url (webhook_mappings cr)\<rparr>) = (e, g', cr')"
      by (simp add: Let_def)
    from Cons.IH [OF this] g1 show ?thesis by simp
  qed
qed

lemma create_webhooks_other_keys:
  "create_webhooks r n ch items (g, cr) = (e, g', cr') \<Longrightarrow> u \<notin> snd ` set items \<Longrightarrow>
   map_of (webhook_mappings cr') u = map_of (webhook_mappings cr) u"
proof (induction items arbitrary: g cr)
  case Nil
  then show ?case by simp
next
  case (Cons a items)
  obtain i v where a: "a = (i, v)" by (cases a)
  let ?name = "if n = 1 then r else r @ ''-'' @ str_nat i"
  obtain res g1 where cw: "create_webhook g ch ?name = (res, g1)"
    by (cases "create_webhook g ch ?name")
  from Cons.prems(2) a have uv: "u \<noteq> v" and rest: "u \<notin> snd ` set items" by auto
  show ?case
  proof (cases res)
    case (Inl err)
    with Cons.prems(1) a cw show ?thesis by (simp add: Let_def)
  next
    case (Inr url)
    with Cons.prems(1) a cw
    have "create_webhooks r n ch items
        (g1, cr\<lparr>webhook_mappings := AList.update v url (webhook_mappings cr)\<rparr>) = (e, g', cr')"
      by (simp add: Let_def)
    from Cons.IH [OF this rest] uv show ?thesis by (simp add: update_conv')
  qed
qed

lemma create_webhooks_all_mapped:
  "create_webhooks r n ch items (g, cr) = (None, g', cr') \<Longrightarrow> u \<in> snd ` set items \<Longrightarrow>
   map_of (webhook_mappings cr') u \<noteq> None"
proof (induction items arbitrary: g cr)
  case Nil
  then show ?case by simp
next
  case (Cons a items)
  obtain i v where a: "a = (i, v)" by (cases a)
  let ?name = "if n = 1 then r else r @ ''-'' @ str_nat i"
  obtain res g1 where cw: "create_webhook g ch ?name = (res, g1)"
    by (cases "create_webhook g ch ?name")
  show ?case
  proof (cases res)
    case (Inl err)
    with Cons.prems(1) a cw show ?thesis by (simp add: Let_def)
  next
    case (Inr url)
    let ?cr1 = "cr\<lparr>webhook_mappings := AList.update v url (webhook_mappings cr)\<rparr>"
    from Inr Cons.prems(1) a cw
    have rec: "create_webhooks r n ch items (g1, ?cr1) = (None, g', cr')"
      by (simp add: Let_def)
    show ?thesis
    proof (cases "u \<in> snd ` set items")
      case True
      from Cons.IH [OF rec True] show ?thesis .
    next
      case False
      with Cons.prems(2) a have "u = v" by auto
      moreover have "map_of (webhook_mappings cr') u = map_of (webhook_mappings ?cr1) u"
        by (rule create_webhooks_other_keys [OF rec False])
      ultimately show ?thesis by (simp add: update_conv')
    qed
  qed
qed

lemma create_webhooks_first_fails:
  "fails g (calls g) \<Longrightarrow>
   create_webhooks r n ch (a # items) (g, cr) = (Some HTTPException, g\<lparr>calls := calls g + 1\<rparr>, cr)"
  by (cases a) (simp add: create_webhook_def Let_def)

lemma provision_no_category:
  "\<not> get_channel g cat \<Longrightarrow> provision cat item (g, cr) = (Some False, g, cr)"
  by (cases item) (simp add: provision_def Let_def)


lemma provision_creation_fails:
  assumes "get_channel g cat"
    and "find_text_channel g (sanitize_name (r @ ''-logs'')) cat = None"
    and "fails g (calls g) \<or> cat \<notin> set (categories g)"
  shows "provision cat (r, urls) (g, cr) =
     (None, g\<lparr>calls := calls g + 1, channel_calls := channel_calls g + 1\<rparr>, cr)"
  using assms by (auto simp: provision_def create_text_channel_def Let_def)

lemma provision_reuse:
  assumes "get_channel g cat"
    and "find_text_channel g (sanitize_name (r @ ''-logs'')) cat = Some ch"
  shows "\<exists>g' cr'. provision cat (r, urls) (g, cr) = (None, g', cr') \<and>
     text_channels g' = text_channels g \<and> categories g' = categories g \<and>
     channel_calls g' = channel_calls g \<and>
     created_channels cr' = created_channels cr @ [rec_of r urls ch]"
proof -
  let ?cr1 = "cr\<lparr>created_channels := created_channels cr @ [rec_of r urls ch]\<rparr>"
  let ?items = "zip [1 ..< Suc (card urls)] (sorted_list_of_set urls)"
  obtain e g2 cr2 where cw: "create_webhooks r (card urls) ch ?items (g, ?cr1) = (e, g2, cr2)"
    by (cases "create_webhooks r (card urls) ch ?items (g, ?cr1)")
  have "provision cat (r, urls) (g, cr) = (None, g2, cr2)"
    using assms cw by (simp add: provision_def Let_def rec_of_def)
  with create_webhooks_guild [OF cw] show ?thesis by simp
qed

lemma provision_created:
  assumes "get_channel g cat"
    and "find_text_channel g (sanitize_name (r @ ''-logs'')) cat = None"
    and "\<not> fails g (calls g)" "cat \<in> set (categories g)"
  shows "\<exists>g' cr'. provision cat (r, urls) (g, cr) = (None, g', cr') \<and>
     text_channels g' = text_channels g @
        [\<lparr>ch_id = next_id g, ch_name = sanitize_name (r @ ''-logs''), ch_category = Some cat\<rparr>] \<and>
     categories g' = categories g \<and>
     channel_calls g' = channel_calls g + 1 \<and>
     created_channels cr' = created_channels cr @
        [rec_of r urls \<lparr>ch_id = next_id g, ch_name = sanitize_name (r @ ''-logs''),
                        ch_category = Some cat\<rparr>]"
proof -
  let ?ch = "\<lparr>ch_id = next_id g, ch_name = sanitize_name (r @ ''-logs''), ch_category = Some cat\<rparr>"
  let ?g1 = "g\<lparr>calls := calls g + 1, channel_calls := channel_calls g + 1,
               text_channels := text_channels g @ [?ch], next_id := next_id g + 1\<rparr>"
  let ?cr1 = "cr\<lparr>created_channels := created_channels cr @ [rec_of r urls ?ch]\<rparr>"
  let ?items = "zip [1 ..< Suc (card urls)] (sorted_list_of_set urls)"
  obtain e g2 cr2 where cw: "create_webhooks r (card urls) ?ch ?items (?g1, ?cr1) = (e, g2, cr2)"
    by (cases "create_webhooks r (card urls) ?ch ?items (?g1, ?cr1)")
  have "provision cat (r, urls) (g, cr) = (None, g2, cr2)"
    using assms cw by (simp add: provision_def create_text_channel_def Let_def rec_of_def)
  with create_webhooks_guild [OF cw] show ?thesis by simp
qed

lemma find_append_some: "find P xs \<noteq> None \<Longrightarrow> find P (xs @ ys) \<noteq> None"
  by (induction xs) auto

lemma find_snoc_some: "P x \<Longrightarrow> find P (xs @ [x]) \<noteq> None"
  by (induction xs) auto

lemma has_channel_mono:
  "text_channels g' = text_channels g @ new \<Longrightarrow> has_channel g cat r \<Longrightarrow> has_channel g' cat r"
  by (simp add: has_channel_def find_text_channel_def find_append_some)

lemma get_channel_mono:
  "categories g' = categories g \<Longrightarrow> text_channels g' = text_channels g @ new \<Longrightarrow>
   get_channel g cat \<Longrightarrow> get_channel g' cat"
  by (auto simp: get_channel_def)

lemma provision_step:
  assumes gc: "get_channel g cat" and p: "provision cat (r, urls) (g, cr) = (x, g', cr')"
  shows "x = None \<and> categories g' = categories g \<and>
     (\<exists>new. text_channels g' = text_channels g @ new) \<and>
     (has_channel g cat r \<longrightarrow>
        text_channels g' = text_channels g \<and> channel_calls g' = channel_calls g) \<and>
     (created_channels cr' = created_channels cr \<or>
      (has_channel g' cat r \<and>
       (\<exists>ch. created_channels cr' = created_channels cr @ [rec_of r urls ch])))"
proof (cases "find_text_channel g (sanitize_name (r @ ''-logs'')) cat")
  case (Some ch)
  from provision_reuse [OF gc Some, of urls cr] p
  have r: "x = None" "text_channels g' = text_channels g" "categories g' = categories g"
    "channel_calls g' = channel_calls g"
    "created_channels cr' = created_channels cr @ [rec_of r urls ch]"
    by auto
  have "has_channel g' cat r"
    using Some r(2) by (simp add: has_channel_def find_text_channel_def)
  with r show ?thesis by auto
next
  case None
  then have nh: "\<not> has_channel g cat r" by (simp add: has_channel_def)
  show ?thesis
  proof (cases "fails g (calls g) \<or> cat \<notin> set (categories g)")
    case True
    from provision_creation_fails [OF gc None True, of urls cr] p nh
    show ?thesis by auto
  next
    case False
    then have ok: "\<not> fails g (calls g)" "cat \<in> set (categories g)" by auto
    let ?ch = "\<lparr>ch_id = next_id g, ch_name = sanitize_name (r @ ''-logs''),
                 ch_category = Some cat\<rparr>"
    from provision_created [OF gc None ok, of urls cr] p
    have r: "x = None" "text_channels g' = text_channels g @ [?ch]"
      "categories g' = categories g"
      "created_channels cr' = created_channels cr @ [rec_of r urls ?ch]"
      by auto
    have "find (\<lambda>c. ch_name c = sanitize_name (r @ ''-logs'') \<and> ch_category c = Some cat)
        (text_channels g @ [?ch]) \<noteq> None"
      by (rule find_snoc_some) simp
    then have "has_channel g' cat r"
      using r(2) by (simp add: has_channel_def find_text_channel_def)
    with r nh show ?thesis by auto
  qed
qed


lemma create_loop_no_category:
  assumes "\<not> get_channel g cat" "items \<noteq> []"
  shows "create_loop cat items (g, cr) = (False, g, cr)"
proof -
  from assms(2) obtain item rest where items: "items = item # rest" by (cases items) auto
  have "provision cat item (g, cr) = (Some False, g, cr)"
    by (rule provision_no_category [OF assms(1)])
  then show ?thesis unfolding items create_loop.simps by (simp only: prod.case option.case)
qed

lemma create_loop_reuse:
  "(\<forall>item \<in> set items. has_channel g cat (fst item)) \<Longrightarrow>
   create_loop cat items (g, cr) = (b, g', cr') \<Longrightarrow>
   text_channels g' = text_channels g \<and> channel_calls g' = channel_calls g"
proof (induction items arbitrary: g cr)
  case Nil
  then show ?case by simp
next
  case (Cons item items)
  obtain r urls where item: "item = (r, urls)" by (cases item)
  show ?case
  proof (cases "get_channel g cat")
    case False
    then have "create_loop cat (item # items) (g, cr) = (False, g, cr)"
      by (intro create_loop_no_category) simp_all
    with Cons.prems(2) show ?thesis by simp
  next
    case True
    obtain x g1 cr1 where p: "provision cat (r, urls) (g, cr) = (x, g1, cr1)"
      by (cases "provision cat (r, urls) (g, cr)")
    have hr: "has_channel g cat r" using Cons.prems(1) item by simp
    from provision_step [OF True p] hr
    have x: "x = None" and same: "text_channels g1 = text_channels g"
      "channel_calls g1 = channel_calls g"
      by auto
    have all: "\<forall>item \<in> set items. has_channel g1 cat (fst item)"
      using Cons.prems(1) same(1) by (simp add: has_channel_def find_text_channel_def)
    have "create_loop cat items (g1, cr1) = (b, g', cr')"
      using Cons.prems(2) item p x by simp
    from Cons.IH [OF all this] same show ?thesis by simp
  qed
qed

lemma create_loop_records:
  "get_channel g cat \<Longrightarrow>
   (\<forall>rec \<in> set (created_channels cr). has_channel g cat (cr_resource rec)) \<Longrightarrow>
   create_loop cat items (g, cr) = (b, g', cr') \<Longrightarrow>
   (\<forall>rec \<in> set (created_channels cr'). has_channel g' cat (cr_resource rec))"
proof (induction items arbitrary: g cr)
  case Nil
  then show ?case by simp
next
  case (Cons item items)
  obtain r urls where item: "item = (r, urls)" by (cases item)
  obtain x g1 cr1 where p: "provision cat (r, urls) (g, cr) = (x, g1, cr1)"
    by (cases "provision cat (r, urls) (g, cr)")
  from provision_step [OF Cons.prems(1) p] obtain new where
    x: "x = None" and g1: "categories g1 = categories g" "text_channels g1 = text_channels g @ new"
    and recs: "created_channels cr1 = created_channels cr \<or>
      (has_channel g1 cat r \<and> (\<exists>ch. created_channels cr1 = created_channels cr @ [rec_of r urls ch]))"
    by auto
  have gc1: "get_channel g1 cat" using get_channel_mono [OF g1 Cons.prems(1)] .
  have old: "\<forall>rec \<in> set (created_channels cr). has_channel g1 cat (cr_resource rec)"
    using Cons.prems(2) has_channel_mono [OF g1(2)] by blast
  have inv1: "\<forall>rec \<in> set (created_channels cr1). has_channel g1 cat (cr_resource rec)"
    using recs old by (auto simp: rec_of_def)
  have "create_loop cat items (g1, cr1) = (b, g', cr')"
    using Cons.prems(3) item p x by simp
  from Cons.IH [OF gc1 inv1 this] show ?case .
qed

lemma second_run_reuses:
  assumes first: "create_all cat idx (g, new_creator) = (b1, g1, cr1)"
    and all: "\<forall>item \<in> set idx. fst item \<in> cr_resource ` set (created_channels cr1)"
    and second: "create_all cat idx (g1, cr) = (b2, g2, cr2)"
  shows "text_channels g2 = text_channels g1 \<and> channel_calls g2 = channel_calls g1"
proof -
  let ?items = "sort_key fst idx"
  have set_items: "set ?items = set idx" by simp
  have inv: "\<forall>rec \<in> set (created_channels cr1). has_channel g1 cat (cr_resource rec)"
  proof (cases "get_channel g cat")
    case True
    show ?thesis
      by (rule create_loop_records [OF True _ first [unfolded create_all_def]])
         (simp add: new_creator_def)
  next
    case False
    have "created_channels cr1 = []"
    proof (cases "?items = []")
      case True
      with first show ?thesis by (auto simp: create_all_def new_creator_def)
    next
      case ne: False
      from create_loop_no_category [OF False ne, of new_creator] first
      show ?thesis by (auto simp: create_all_def new_creator_def)
    qed
    then show ?thesis by simp
  qed
  have "\<forall>item \<in> set ?items. has_channel g1 cat (fst item)"
    using all inv unfolding set_items by auto
  from create_loop_reuse [OF this second [unfolded create_all_def]] show ?thesis .
qed






section \<open>Properties of scanning\<close>

text \<open>The examples, evaluated once.\<close>

lemma valid_old: "valid_candidate (Some example_old) = Inr True"
  by code_simp

lemma valid_foreign: "valid_candidate (Some example_foreign) = Inr True"
  by code_simp

lemma cand_bare: "candidates example_bare = [Some example_old]"
  by code_simp

lemma cand_assignment:
  "candidates example_assignment = [Some example_old, Some example_old, Some example_old]"
  by code_simp

lemma cand_foreign:
  "candidates example_foreign_assignment = [Some example_foreign, Some example_foreign]"
  by code_simp

lemma name_file: "extract_resource_name [''srv''] example_file = ''shop''"
  by code_simp

lemma name_file3: "extract_resource_name [''srv''] example_file3 = ''shop''"
  by code_simp

lemma files_differ: "example_file \<noteq> example_file3"
  by (simp add: example_file_def example_file3_def)

lemma add_same:
  assumes "valid_candidate (Some u) = Inr True"
  shows "add_candidates f r (replicate n (Some u)) sc b =
     (None, ((record_hit f r u) ^^ n) sc, b \<or> 0 < n)"
proof (induction n arbitrary: sc b)
  case 0
  then show ?case by simp
next
  case (Suc n)
  show ?case
    using assms Suc [of "record_hit f r u sc" True]
    by (simp add: funpow_swap1)
qed

text \<open>What a file with \<open>n\<close> accepted matches of one URL adds to the indexes.\<close>

lemma urls_of_update: "urls_of (AList.update r s al) r = s"
  by (simp add: urls_of_def update_conv')

lemma occurrences_of_update: "occurrences_of (AList.update u l al) u = l"
  by (simp add: occurrences_of_def update_conv')

lemma record_hits:
  "0 < n \<Longrightarrow>
   webhooks_by_resource (((record_hit f r u) ^^ n) sc) =
     AList.update r (insert u (urls_of (webhooks_by_resource sc) r)) (webhooks_by_resource sc) \<and>
   file_occurrences (((record_hit f r u) ^^ n) sc) =
     AList.update u (occurrences_of (file_occurrences sc) u @ replicate n (f, r))
       (file_occurrences sc) \<and>
   webhooks_found (((record_hit f r u) ^^ n) sc) = webhooks_found sc + n"
proof (induction n)
  case 0
  then show ?case by simp
next
  case (Suc n)
  show ?case
  proof (cases "n = 0")
    case True
    then show ?thesis by (simp add: record_hit_def)
  next
    case False
    then have "0 < n" by simp
    from Suc.IH [OF this] show ?thesis
      by (simp add: record_hit_def urls_of_update occurrences_of_update update_last
          replicate_append_same)
  qed
qed

lemma scan_file_hits:
  assumes "read_text fs f = Inr content" "candidates content = replicate n (Some u)" "0 < n"
    "valid_candidate (Some u) = Inr True" "extract_resource_name base f = r"
  shows "webhooks_by_resource (scan_file base fs f sc) =
     AList.update r (insert u (urls_of (webhooks_by_resource sc) r)) (webhooks_by_resource sc)"
    and "file_occurrences (scan_file base fs f sc) =
     AList.update u (occurrences_of (file_occurrences sc) u @ replicate n (f, r))
       (file_occurrences sc)"
proof -
  have sf: "scan_file base fs f sc =
      (((record_hit f r u) ^^ n) sc)
        \<lparr>files_with_webhooks := files_with_webhooks (((record_hit f r u) ^^ n) sc) + 1\<rparr>"
    unfolding scan_file_def assms(1) assms(2) sum.case Let_def add_same [OF assms(4)] assms(5)
    using assms(3) by simp
  from record_hits [OF assms(3), of f r u sc]
  show "webhooks_by_resource (scan_file base fs f sc) =
     AList.update r (insert u (urls_of (webhooks_by_resource sc) r)) (webhooks_by_resource sc)"
    and "file_occurrences (scan_file base fs f sc) =
     AList.update u (occurrences_of (file_occurrences sc) u @ replicate n (f, r))
       (file_occurrences sc)"
    unfolding sf by simp_all
qed

lemma scan_two_files:
  assumes r1: "read_text fs f1 = Inr c1" and r2: "read_text fs f2 = Inr c2"
    and n1: "extract_resource_name base f1 = r" and n2: "extract_resource_name base f2 = r"
    and k1: "candidates c1 = replicate m1 (Some u)" "0 < m1"
    and k2: "candidates c2 = replicate m2 (Some u)" "0 < m2"
    and v: "valid_candidate (Some u) = Inr True"
  shows "webhooks_by_resource (scan base fs [f1, f2] new_scanner) = [(r, {u})] \<and>
     file_occurrences (scan base fs [f1, f2] new_scanner) =
       [(u, replicate m1 (f1, r) @ replicate m2 (f2, r))]"
proof -
  let ?s1 = "scan_file base fs f1 new_scanner"
  have a: "webhooks_by_resource ?s1 = [(r, {u})]"
    "file_occurrences ?s1 = [(u, replicate m1 (f1, r))]"
    using scan_file_hits [OF r1 k1 v n1, of new_scanner]
    by (simp_all add: new_scanner_def urls_of_def occurrences_of_def)
  have b: "webhooks_by_resource (scan_file base fs f2 ?s1) = [(r, {u})]"
    "file_occurrences (scan_file base fs f2 ?s1) =
       [(u, replicate m1 (f1, r) @ replicate m2 (f2, r))]"
    using scan_file_hits [OF r2 k2 v n2, of ?s1] a
    by (simp_all add: urls_of_def occurrences_of_def)
  show ?thesis using b by (simp add: scan_def)
qed

lemma scan_one_file:
  assumes r1: "read_text fs f = Inr c" and n1: "extract_resource_name base f = r"
    and k1: "candidates c = replicate m (Some u)" "0 < m"
    and v: "valid_candidate (Some u) = Inr True"
  shows "webhooks_by_resource (scan base fs [f] new_scanner) = [(r, {u})]"
  using scan_file_hits(1) [OF r1 k1 v n1, of new_scanner]
  by (simp add: scan_def new_scanner_def urls_of_def)

lemma foreign_checks:
  "is_valid_webhook example_foreign = Inr True \<and>
   url_host example_foreign = Some ''notdiscord.com'' \<and>
   ''notdiscord.com'' \<notin> set accepted_hosts \<and>
   \<not> list_ex (\<lambda>h. suffix (''.'' @ h) ''notdiscord.com'') accepted_hosts"
  by code_simp

lemma foreign_provisioned:
  "fst (create_all 1 [(''shop'', {example_foreign})] (example_guild never, new_creator)) = True \<and>
   webhook_mappings
     (run_creator (create_all 1 [(''shop'', {example_foreign})]
                     (example_guild never, new_creator))) =
     [(example_foreign, example_hook_url 1)]"
  by code_simp

lemma foreign_rewritten:
  "read_text
     (fst (update_files True [(example_foreign, example_hook_url 1)]
             (Some [''webhook_backups'', ''20250101_120000'']) [example_file]
             (no_faults [(example_file, example_foreign_assignment)], no_stats)))
     example_file = Inr (''webhook = '' @ [CHR 0x22] @ example_hook_url 1 @ [CHR 0x22])"
  by code_simp

lemma foreign_pipeline:
  "fst (scan_webhooks [''srv''] 1 ''webhook_backups'' ''20250101_120000''
          [example_file] [example_file]
          (no_faults [(example_file, example_foreign_assignment)], example_guild never))
     = Completed \<and>
   read_text
     (fst (snd (scan_webhooks [''srv''] 1 ''webhook_backups'' ''20250101_120000''
                  [example_file] [example_file]
                  (no_faults [(example_file, example_foreign_assignment)],
                   example_guild never))))
     example_file = Inr (''webhook = '' @ [CHR 0x22] @ example_hook_url 1 @ [CHR 0x22])"
proof -
  let ?fs = "no_faults [(example_file, example_foreign_assignment)]"
  have rd: "read_text ?fs example_file = Inr example_foreign_assignment"
    by (simp add: read_text_def no_faults_def)
  have k: "candidates example_foreign_assignment = replicate 2 (Some example_foreign)"
    using cand_foreign by (simp add: numeral_2_eq_2)
  have idx: "webhooks_by_resource (scan [''srv''] ?fs [example_file] new_scanner) =
      [(''shop'', {example_foreign})]"
    by (rule scan_one_file [OF rd name_file k _ valid_foreign]) simp
  obtain b g1 cr where ca:
    "create_all 1 [(''shop'', {example_foreign})] (example_guild never, new_creator) = (b, g1, cr)"
    by (cases "create_all 1 [(''shop'', {example_foreign})] (example_guild never, new_creator)")
  with foreign_provisioned have b: "b = True"
    and m: "webhook_mappings cr = [(example_foreign, example_hook_url 1)]"
    by (simp_all add: run_creator_def)
  have mk: "\<not> mkdir_fails ?fs" by (simp add: no_faults_def)
  obtain fs1 st1 where uf:
    "update_files True [(example_foreign, example_hook_url 1)]
       (Some [''webhook_backups'', ''20250101_120000'']) [example_file] (?fs, no_stats) = (fs1, st1)"
    by (cases "update_files True [(example_foreign, example_hook_url 1)]
       (Some [''webhook_backups'', ''20250101_120000'']) [example_file] (?fs, no_stats)")
  have rw: "read_text fs1 example_file =
      Inr (''webhook = '' @ [CHR 0x22] @ example_hook_url 1 @ [CHR 0x22])"
    using foreign_rewritten unfolding uf by simp
  have ne: "[(''shop'', {example_foreign})] \<noteq> []" by simp
  have "scan_webhooks [''srv''] 1 ''webhook_backups'' ''20250101_120000''
          [example_file] [example_file] (?fs, example_guild never) =
        (Completed, fs1, g1, cr, st1)"
    unfolding scan_webhooks_def prod.case Let_def idx ca b m update_all_def uf
    using mk ne by (simp only: if_True if_False not_True_eq_False not_False_eq_True sum.case prod.case)
  then show ?thesis using rw by simp
qed

section \<open>Claims about the validator\<close>

text \<open>
  Claim C1.  For every string \<open>u\<close> the validator returns a truth value (it never raises)
  and that value is \<open>True\<close> exactly when: \<open>u\<close> has at least 50 characters; the
  lowercased \<open>u\<close> contains an accepted hostname followed by the webhook path prefix;
  splitting \<open>u\<close> on \<open>/\<close> gives at least 7 segments; the second-to-last segment is
  non-empty, all digits and at least 17 long; the last segment is at least 50 long and
  made of alphanumerics, \<open>-\<close> and \<open>_\<close> only.  In particular a URL composed of
  \<open>https://\<close>, an accepted host, the path prefix, an id and a token (neither containing
  \<open>/\<close>) is accepted exactly when the id is 17 or more digits and the token is 50 or
  more token characters: a shorter token, a non-numeric id or a shorter id rejects it.
\<close>

theorem is_valid_webhook_spec:
  "(\<forall>u. is_valid_webhook u = Inr
     (50 \<le> length u \<and>
      (\<exists>h \<in> set accepted_hosts. \<exists>p s. lower u = p @ h @ webhook_path @ s) \<and>
      7 \<le> length (split_on CHR ''/'' u) \<and>
      (let segs = split_on CHR ''/'' u; wid = segs ! (length segs - 2); tok = last segs
       in wid \<noteq> [] \<and> (\<forall>c \<in> set wid. isdigit c) \<and> 17 \<le> length wid \<and>
          50 \<le> length tok \<and> (\<forall>c \<in> set tok. isalnum c \<or> c = CHR ''-'' \<or> c = CHR ''_'')))) \<and>
   (\<forall>h wid tok. h \<in> set accepted_hosts \<longrightarrow> CHR ''/'' \<notin> set wid \<longrightarrow> CHR ''/'' \<notin> set tok \<longrightarrow>
      is_valid_webhook (''https://'' @ h @ webhook_path @ wid @ ''/'' @ tok) = Inr
        (wid \<noteq> [] \<and> (\<forall>c \<in> set wid. isdigit c) \<and> 17 \<le> length wid \<and>
         50 \<le> length tok \<and> (\<forall>c \<in> set tok. isalnum c \<or> c = CHR ''-'' \<or> c = CHR ''_'')))"
proof (intro conjI allI impI)
  fix u
  show "is_valid_webhook u = Inr
     (50 \<le> length u \<and>
      (\<exists>h \<in> set accepted_hosts. \<exists>p s. lower u = p @ h @ webhook_path @ s) \<and>
      7 \<le> length (split_on CHR ''/'' u) \<and>
      (let segs = split_on CHR ''/'' u; wid = segs ! (length segs - 2); tok = last segs
       in wid \<noteq> [] \<and> (\<forall>c \<in> set wid. isdigit c) \<and> 17 \<le> length wid \<and>
          50 \<le> length tok \<and> (\<forall>c \<in> set tok. isalnum c \<or> c = CHR ''-'' \<or> c = CHR ''_'')))"
    by (rule is_valid_webhook_char)
next
  fix h wid tok
  assume a: "h \<in> set accepted_hosts" "CHR ''/'' \<notin> set wid" "CHR ''/'' \<notin> set tok"
  show "is_valid_webhook (''https://'' @ h @ webhook_path @ wid @ ''/'' @ tok) = Inr
        (wid \<noteq> [] \<and> (\<forall>c \<in> set wid. isdigit c) \<and> 17 \<le> length wid \<and>
         50 \<le> length tok \<and> (\<forall>c \<in> set tok. isalnum c \<or> c = CHR ''-'' \<or> c = CHR ''_''))"
    unfolding composed_valid [OF a] by (simp add: list_all_iff token_char_iff)
qed

theorem is_valid_webhook_spec_witness:
  "is_valid_webhook
     ''https://discord.com/api/webhooks/12345678901234567/abcdefghijklmnopqrstuvwxyzABCDEFGHIJKLMNOPQRSTUV-_''
     = Inr True \<and>
   is_valid_webhook
     ''https://discord.com/api/webhooks/12345678901234567/abcdefghijklmnopqrstuvwxyzABCDEFGHIJKLMNOPQRSTUV-''
     = Inr False \<and>
   is_valid_webhook
     ''https://discord.com/api/webhooks/1234567890123456x/abcdefghijklmnopqrstuvwxyzABCDEFGHIJKLMNOPQRSTUV-_''
     = Inr False \<and>
   is_valid_webhook
     ''https://discord.com/api/webhooks/1234567890123456/abcdefghijklmnopqrstuvwxyzABCDEFGHIJKLMNOPQRSTUV-_''
     = Inr False"
proof -
  note c = is_valid_webhook_spec [THEN conjunct2, rule_format, of "''discord.com''"]
  have h: "''discord.com'' \<in> set accepted_hosts" by (simp add: accepted_hosts_def)
  show ?thesis
    using c [of "''12345678901234567''" "''abcdefghijklmnopqrstuvwxyzABCDEFGHIJKLMNOPQRSTUV-_''", OF h]
      c [of "''12345678901234567''" "''abcdefghijklmnopqrstuvwxyzABCDEFGHIJKLMNOPQRSTUV-''", OF h]
      c [of "''1234567890123456x''" "''abcdefghijklmnopqrstuvwxyzABCDEFGHIJKLMNOPQRSTUV-_''", OF h]
      c [of "''1234567890123456''" "''abcdefghijklmnopqrstuvwxyzABCDEFGHIJKLMNOPQRSTUV-_''", OF h]
    by (simp add: webhook_path_def isdigit_def isalnum_def code_def)
qed

section \<open>Claims about resource attribution\<close>

text \<open>
  Claim C4.  For a file whose path relative to the scan root has the (non-empty)
  segments \<open>parts\<close>, the attributor returns one name by this precedence:
  (1) if a segment equals \<open>resources\<close> and a segment follows it, the segment after the
  first such occurrence; (2) otherwise, if the first segment is bracket-delimited, the
  second segment if there is one, else the bracket segment itself; (3) otherwise the
  first segment; (4) in every case the chosen segment is cleaned (brackets stripped, then
  whitespace, \<open>unknown\<close> if nothing is left).  So \<open>.../resources/myresource/file.lua\<close>,
  \<open>[category]/myresource/file.lua\<close> and \<open>myresource/file.lua\<close> all give
  \<open>myresource\<close>, a path with no usable segment gives \<open>unknown\<close>, and the name is
  never empty.
\<close>

theorem extract_resource_name_precedence:
  "(\<forall>base pre seg post. ''resources'' \<notin> set pre \<longrightarrow> seg \<noteq> [] \<longrightarrow>
      extract_resource_name base (base @ pre @ ''resources'' # seg # post) = clean_segment seg) \<and>
   (\<forall>base first rest. first \<noteq> [] \<longrightarrow> [] \<notin> set rest \<longrightarrow>
      \<not> (\<exists>pre seg post. first # rest = pre @ ''resources'' # seg # post) \<longrightarrow>
      extract_resource_name base (base @ first # rest) =
        clean_segment (if bracketed first
                       then (case rest of [] \<Rightarrow> first | second # _ \<Rightarrow> second)
                       else first)) \<and>
   (\<forall>base pre. ''resources'' \<notin> set pre \<longrightarrow>
      extract_resource_name base (base @ pre @ [''resources'', ''myresource'', ''file.lua''])
        = ''myresource'') \<and>
   (\<forall>base. extract_resource_name base (base @ [''[category]'', ''myresource'', ''file.lua''])
        = ''myresource'') \<and>
   (\<forall>base. extract_resource_name base (base @ [''myresource'', ''file.lua'']) = ''myresource'') \<and>
   (\<forall>base. extract_resource_name base base = ''unknown'') \<and>
   (\<forall>base. extract_resource_name base (base @ [''[]'']) = ''unknown'') \<and>
   (\<forall>base p. extract_resource_name base p \<noteq> [])"
proof -
  have clean: "clean_segment ''myresource'' = ''myresource''"
    by code_simp
  have clean_br: "clean_segment ''[]'' = ''unknown''"
    by code_simp
  have br: "bracketed ''[category]''" "\<not> bracketed ''myresource''" "bracketed ''[]''"
    by (simp_all add: bracketed_def)
  have r1: "extract_resource_name base (base @ pre @ ''resources'' # seg # post) = clean_segment seg"
    if "''resources'' \<notin> set pre" "seg \<noteq> []" for base pre seg post
    using that by (rule extract_rule1)
  have r23: "extract_resource_name base (base @ first # rest) =
        clean_segment (if bracketed first
                       then (case rest of [] \<Rightarrow> first | second # _ \<Rightarrow> second)
                       else first)"
    if "first \<noteq> []" "[] \<notin> set rest"
      "\<not> (\<exists>pre seg post. first # rest = pre @ ''resources'' # seg # post)" for base first rest
    by (rule extract_rule23 [OF that(3) that(1) that(2)])
  have no_res: "\<not> (\<exists>pre seg post. first # rest = pre @ ''resources'' # seg # post)"
    if "''resources'' \<notin> set (first # rest)" for first :: string and rest
    unfolding follower_iff using that by (meson in_set_butlastD)
  have e1: "extract_resource_name base (base @ pre @ [''resources'', ''myresource'', ''file.lua''])
        = ''myresource''" if "''resources'' \<notin> set pre" for base pre
    using r1 [OF that, of "''myresource''" base "[''file.lua'']"] clean by simp
  have e2: "extract_resource_name base (base @ [''[category]'', ''myresource'', ''file.lua''])
        = ''myresource''" for base
    using r23 [of "''[category]''" "[''myresource'', ''file.lua'']" base] no_res br clean by simp
  have e3: "extract_resource_name base (base @ [''myresource'', ''file.lua'']) = ''myresource''"
    for base
    using r23 [of "''myresource''" "[''file.lua'']" base] no_res br clean by simp
  have e4: "extract_resource_name base (base @ [''[]'']) = ''unknown''" for base
    using r23 [of "''[]''" "[]" base] no_res br clean_br by simp
  show ?thesis
    using r1 r23 e1 e2 e3 e4 extract_empty extract_nonempty by blast
qed

theorem extract_resource_name_precedence_witness:
  "extract_resource_name [''srv''] [''srv'', ''data'', ''resources'', ''[qb]'', ''f.lua''] = ''qb'' \<and>
   extract_resource_name [''srv''] [''srv'', ''[core]'', ''shop'', ''f.lua''] = ''shop'' \<and>
   extract_resource_name [''srv''] [''srv'', ''[core]''] = ''core'' \<and>
   extract_resource_name [''srv''] [''srv'', ''shop'', ''resources''] = ''shop''"
proof -
  have c: "clean_segment ''[qb]'' = ''qb''" "clean_segment ''shop'' = ''shop''"
    "clean_segment ''[core]'' = ''core''"
    by (code_simp, code_simp, code_simp)
  have br: "bracketed ''[core]''" "\<not> bracketed ''shop''"
    by (simp_all add: bracketed_def)
  have n1: "\<not> (\<exists>pre seg post. [''[core]'', ''shop'', ''f.lua''] = pre @ ''resources'' # seg # post)"
    by (simp add: follower_iff)
  have n2: "\<not> (\<exists>pre seg post. [''[core]''] = pre @ ''resources'' # seg # post)"
    by (simp add: follower_iff)
  have n3: "\<not> (\<exists>pre seg post. [''shop'', ''resources''] = pre @ ''resources'' # seg # post)"
    by (simp add: follower_iff)
  note t = extract_resource_name_precedence
  show ?thesis
    using t [THEN conjunct1, rule_format, of "[''data'']" "''[qb]''" "[''srv'']" "[''f.lua'']"]
      t [THEN conjunct2, THEN conjunct1, rule_format, of "''[core]''" "[''shop'', ''f.lua'']" "[''srv'']"]
      t [THEN conjunct2, THEN conjunct1, rule_format, of "''[core]''" "[]" "[''srv'']"]
      t [THEN conjunct2, THEN conjunct1, rule_format, of "''shop''" "[''resources'']" "[''srv'']"]
      n1 n2 n3 c br
    by simp
qed

section \<open>Claims about the rewrite stage\<close>




text \<open>
  Claim C8.  The backup of a modified file goes to a path that does not exist when it is
  written: the file's base name inside the run's backup directory, or, when that name is
  taken, the stem followed by \<open>_\<close>, a number from 1 upwards and the suffix.  Rewriting
  a file changes no path other than the file itself and that new backup path, so through
  the rest of a run every file that already exists (each backup written earlier among
  them) and that is not itself one of the files still to be rewritten keeps its
  content.
\<close>

theorem backup_paths_fresh:
  "(\<forall>fs dir p. \<not> path_exists fs (backup_target fs dir p)) \<and>
   (\<forall>fs dir p.
      backup_target fs dir p = dir @ [path_name p] \<or>
      (path_exists fs (dir @ [path_name p]) \<and>
       (\<exists>j\<ge>1. backup_target fs dir p =
                 dir @ [path_stem p @ ''_'' @ str_nat j @ path_suffix p]))) \<and>
   (\<forall>cb p m dir fs st q. q \<noteq> p \<longrightarrow> q \<noteq> backup_target fs dir p \<longrightarrow>
      map_of (files (fst (update_file cb p m (Some dir) (fs, st)))) q = map_of (files fs) q) \<and>
   (\<forall>cb m bd order fs st q. path_exists fs q \<longrightarrow> q \<notin> set order \<longrightarrow>
      map_of (files (fst (update_files cb m bd order (fs, st)))) q = map_of (files fs) q \<and>
      path_exists (fst (update_files cb m bd order (fs, st))) q)"
proof (intro conjI allI impI)
  fix fs dir p
  show "\<not> path_exists fs (backup_target fs dir p)" by (rule backup_target_fresh)
  show "backup_target fs dir p = dir @ [path_name p] \<or>
      (path_exists fs (dir @ [path_name p]) \<and>
       (\<exists>j\<ge>1. backup_target fs dir p =
                 dir @ [path_stem p @ ''_'' @ str_nat j @ path_suffix p]))"
    by (rule backup_target_name)
next
  fix cb p m dir fs st and q :: path
  assume "q \<noteq> p" "q \<noteq> backup_target fs dir p"
  then show "map_of (files (fst (update_file cb p m (Some dir) (fs, st)))) q = map_of (files fs) q"
    by (rule update_file_frame)
next
  fix cb m bd order fs st and q :: path
  assume a: "path_exists fs q" "q \<notin> set order"
  from update_files_keeps [of "(fs, st)" q order cb m bd] a
  show "map_of (files (fst (update_files cb m bd order (fs, st)))) q = map_of (files fs) q"
    and "path_exists (fst (update_files cb m bd order (fs, st))) q"
    by simp_all
qed

theorem backup_paths_fresh_witness:
  "backup_target (no_faults example_files) example_dir example_file
     = example_dir @ [''config.lua''] \<and>
   backup_target
     (fst (update_file True example_file [(example_old, example_new)] (Some example_dir)
             (no_faults example_files, no_stats)))
     example_dir example_file2 = example_dir @ [''config_1.lua''] \<and>
   map_of (files (fst (update_files True [(example_old, example_new)] (Some example_dir)
                         [example_file, example_file2] (no_faults example_files, no_stats))))
     (example_dir @ [''config.lua'']) = Some example_content \<and>
   map_of (files (fst (update_files True [(example_old, example_new)] (Some example_dir)
                         [example_file, example_file2] (no_faults example_files, no_stats))))
     (example_dir @ [''config_1.lua'']) = Some example_content2"
proof -
  let ?m = "[(example_old, example_new)]"
  let ?s1 = "update_file True example_file ?m (Some example_dir) (no_faults example_files, no_stats)"
  let ?b1 = "example_dir @ [''config.lua'']"
  have t1: "backup_target (no_faults example_files) example_dir example_file = ?b1"
    by code_simp
  have t2: "backup_target (fst ?s1) example_dir example_file2 = example_dir @ [''config_1.lua'']"
    by code_simp
  have ex: "path_exists (fst ?s1) ?b1" by code_simp
  have c1: "map_of (files (fst ?s1)) ?b1 = Some example_content" by code_simp
  have nin: "?b1 \<notin> set [example_file2]"
    by (simp add: example_dir_def example_file2_def)
  have keep: "map_of (files (fst (update_files True ?m (Some example_dir) [example_file2]
                  (fst ?s1, snd ?s1)))) ?b1 = map_of (files (fst ?s1)) ?b1"
    using backup_paths_fresh [THEN conjunct2, THEN conjunct2, THEN conjunct2, rule_format,
        OF ex nin, of True ?m "Some example_dir" "snd ?s1"]
    by simp
  have c2: "map_of (files (fst (update_files True ?m (Some example_dir)
                         [example_file, example_file2] (no_faults example_files, no_stats))))
     (example_dir @ [''config_1.lua'']) = Some example_content2"
    by code_simp
  show ?thesis
    using t1 t2 keep c1 c2 by simp
qed

text \<open>
  Claim C9, as stated, fails: when the write of the new content breaks after the file
  was opened for writing, the exception is dropped but the file is left empty.
\<close>

theorem write_failure_counterexample:
  "read_text (write_breaks_at example_file [(example_file, example_content)]) example_file
     = Inr example_content \<and>
   example_content \<noteq> [] \<and>
   read_text
     (fst (update_file True example_file [(example_old, example_new)] (Some example_dir)
             (write_breaks_at example_file [(example_file, example_content)], no_stats)))
     example_file = Inr []"
  by code_simp

text \<open>
  Claim C9, amended.  Rewriting one file never raises: it returns the state reached.  If
  the file cannot be read, or its backup cannot be opened for writing, nothing at all
  changes; if the file itself cannot be opened for writing, its content stays as it
  was.  Whatever happens to the other files of a run, a file of the run that can be read
  and written (and whose backup, when backups are on, can be written) ends the run with
  exactly the content the mapping gives it, provided it does not lie in the backup
  directory.
\<close>

theorem io_failure_contained:
  "(\<forall>cb p m bd fs st e. read_text fs p = Inl e \<longrightarrow> update_file cb p m bd (fs, st) = (fs, st)) \<and>
   (\<forall>p m dir fs st. wfault fs (backup_target fs dir p) = OpenFails \<longrightarrow>
      update_file True p m (Some dir) (fs, st) = (fs, st)) \<and>
   (\<forall>cb p m bd fs st. wfault fs p = OpenFails \<longrightarrow>
      map_of (files (fst (update_file cb p m bd (fs, st)))) p = map_of (files fs) p) \<and>
   (\<forall>cb m bd order fs st g c.
      distinct order \<longrightarrow> g \<in> set order \<longrightarrow>
      read_text fs g = Inr c \<longrightarrow> wfault fs g = WriteOk \<longrightarrow>
      (\<forall>dir n. bd = Some dir \<longrightarrow> g \<noteq> dir @ [n]) \<longrightarrow>
      (\<forall>dir fs'. bd = Some dir \<longrightarrow> cb \<longrightarrow> wfault fs (backup_target fs' dir g) = WriteOk) \<longrightarrow>
      map_of (files (fst (update_files cb m bd order (fs, st)))) g =
        Some (fst (apply_mappings m (c, 0))))"
proof (intro conjI allI impI)
  fix cb p m bd fs st e
  assume "read_text fs p = Inl e"
  then show "update_file cb p m bd (fs, st) = (fs, st)" by (rule update_file_read_fails)
next
  fix p m dir and fs :: filesystem and st
  assume "wfault fs (backup_target fs dir p) = OpenFails"
  then show "update_file True p m (Some dir) (fs, st) = (fs, st)"
    by (rule update_file_backup_open_fails)
next
  fix cb p m bd and fs :: filesystem and st
  assume "wfault fs p = OpenFails"
  then show "map_of (files (fst (update_file cb p m bd (fs, st)))) p = map_of (files fs) p"
    by (rule update_file_open_fails(1))
next
  fix cb m bd order fs st g c
  assume "distinct order" "g \<in> set order" "read_text fs g = Inr c" "wfault fs g = WriteOk"
    "\<forall>dir n. bd = Some dir \<longrightarrow> g \<noteq> dir @ [n]"
    "\<forall>dir fs'. bd = Some dir \<longrightarrow> cb \<longrightarrow> wfault fs (backup_target fs' dir g) = WriteOk"
  then show "map_of (files (fst (update_files cb m bd order (fs, st)))) g =
        Some (fst (apply_mappings m (c, 0)))"
    by (rule update_files_target)
qed

theorem io_failure_contained_witness:
  "map_of (files (fst (update_file True example_file [(example_old, example_new)]
                         (Some example_dir) (open_fails_at example_file example_files, no_stats))))
     example_file = Some example_content \<and>
   map_of (files (fst (update_files True [(example_old, example_new)] (Some example_dir)
                         [example_file, example_file2]
                         (open_fails_at example_file example_files, no_stats))))
     example_file2 = Some (''hook = '' @ example_new)"
proof -
  let ?m = "[(example_old, example_new)]"
  let ?fs = "open_fails_at example_file example_files"
  note t = io_failure_contained
  have of1: "wfault ?fs example_file = OpenFails" by (simp add: open_fails_at_def)
  have m0: "map_of (files ?fs) example_file = Some example_content" by code_simp
  have a: "map_of (files (fst (update_file True example_file ?m (Some example_dir) (?fs, no_stats))))
     example_file = Some example_content"
    using t [THEN conjunct2, THEN conjunct2, THEN conjunct1, rule_format, OF of1,
        of True ?m "Some example_dir" no_stats] m0
    by simp
  have d: "distinct [example_file, example_file2]"
    by (simp add: example_file_def example_file2_def)
  have g: "example_file2 \<in> set [example_file, example_file2]" by simp
  have rd: "read_text ?fs example_file2 = Inr example_content2" by code_simp
  have wf: "wfault ?fs example_file2 = WriteOk"
    by (simp add: open_fails_at_def example_file_def example_file2_def)
  have out: "\<forall>dir n. Some example_dir = Some dir \<longrightarrow> example_file2 \<noteq> dir @ [n]"
    by (simp add: example_dir_def example_file2_def)
  have wb: "\<forall>dir fs'. Some example_dir = Some dir \<longrightarrow> True \<longrightarrow>
      wfault ?fs (backup_target fs' dir example_file2) = WriteOk"
  proof (intro allI impI)
    fix dir fs'
    assume "Some example_dir = Some dir"
    then have dir: "dir = example_dir" by simp
    obtain n where "backup_target fs' dir example_file2 = dir @ [n]"
      using backup_target_in_dir by blast
    then have "backup_target fs' dir example_file2 \<noteq> example_file"
      unfolding dir by (simp add: example_dir_def example_file_def)
    then show "wfault ?fs (backup_target fs' dir example_file2) = WriteOk"
      by (simp add: open_fails_at_def)
  qed
  have r: "fst (apply_mappings ?m (example_content2, 0)) = ''hook = '' @ example_new"
    by code_simp
  have b: "map_of (files (fst (update_files True ?m (Some example_dir)
                         [example_file, example_file2] (?fs, no_stats))))
     example_file2 = Some (''hook = '' @ example_new)"
    using t [THEN conjunct2, THEN conjunct2, THEN conjunct2, rule_format (no_asm),
        OF d g rd wf out wb, of ?m no_stats] r
    by simp
  show ?thesis using a b by simp
qed

section \<open>Claims about provisioning\<close>

text \<open>
  Claim C5, as stated, fails in its second half: when the creation of a resource's
  channel failed in the first run, the second run creates it.
\<close>

theorem second_run_counterexample:
  "text_channels
     (run_guild (create_all 1 [(''shop'', {example_old})]
                   (example_guild (only_at 0), new_creator))) = [] \<and>
   length (text_channels
     (run_guild (create_all 1 [(''shop'', {example_old})]
        (run_guild (create_all 1 [(''shop'', {example_old})]
                      (example_guild (only_at 0), new_creator)),
         new_creator)))) = 1"
  by code_simp

text \<open>
  Claim C5, amended.  For a resource whose sanitized channel name is the name of a
  text channel inside the (existing) target category, provisioning reuses that channel:
  it asks for no new channel, the list of channels is unchanged and the record it
  appends carries the id of the existing channel.  Hence a run over an index all of
  whose resources have such a channel creates none; and a second run over the same index
  creates none, whatever fails in it, provided the first run obtained a channel for
  every resource of the index (it recorded a channel for each).
\<close>

theorem existing_channel_reused:
  "(\<forall>g cat r urls cr ch.
      get_channel g cat \<longrightarrow>
      find_text_channel g (sanitize_name (r @ ''-logs'')) cat = Some ch \<longrightarrow>
      (\<exists>g' cr'. provision cat (r, urls) (g, cr) = (None, g', cr') \<and>
         text_channels g' = text_channels g \<and> channel_calls g' = channel_calls g \<and>
         created_channels cr' = created_channels cr @ [rec_of r urls ch])) \<and>
   (\<forall>cat idx g cr b g' cr'.
      (\<forall>item \<in> set idx. has_channel g cat (fst item)) \<longrightarrow>
      create_all cat idx (g, cr) = (b, g', cr') \<longrightarrow>
      text_channels g' = text_channels g \<and> channel_calls g' = channel_calls g) \<and>
   (\<forall>cat idx g b1 g1 cr1 cr b2 g2 cr2.
      create_all cat idx (g, new_creator) = (b1, g1, cr1) \<longrightarrow>
      (\<forall>item \<in> set idx. fst item \<in> cr_resource ` set (created_channels cr1)) \<longrightarrow>
      create_all cat idx (g1, cr) = (b2, g2, cr2) \<longrightarrow>
      text_channels g2 = text_channels g1 \<and> channel_calls g2 = channel_calls g1)"
proof (intro conjI allI impI)
  fix g cat r urls cr ch
  assume "get_channel g cat" "find_text_channel g (sanitize_name (r @ ''-logs'')) cat = Some ch"
  from provision_reuse [OF this, of urls cr]
  show "\<exists>g' cr'. provision cat (r, urls) (g, cr) = (None, g', cr') \<and>
         text_channels g' = text_channels g \<and> channel_calls g' = channel_calls g \<and>
         created_channels cr' = created_channels cr @ [rec_of r urls ch]"
    by blast
next
  fix cat idx g cr b g' cr'
  assume a: "\<forall>item \<in> set idx. has_channel g cat (fst item)"
    and r: "create_all cat idx (g, cr) = (b, g', cr')"
  have "\<forall>item \<in> set (sort_key fst idx). has_channel g cat (fst item)" using a by simp
  from create_loop_reuse [OF this r [unfolded create_all_def]]
  show "text_channels g' = text_channels g" and "channel_calls g' = channel_calls g"
    by simp_all
next
  fix cat idx g b1 g1 cr1 cr b2 g2 cr2
  assume a: "create_all cat idx (g, new_creator) = (b1, g1, cr1)"
    "\<forall>item \<in> set idx. fst item \<in> cr_resource ` set (created_channels cr1)"
    "create_all cat idx (g1, cr) = (b2, g2, cr2)"
  from second_run_reuses [OF a]
  show "text_channels g2 = text_channels g1" and "channel_calls g2 = channel_calls g1"
    by simp_all
qed

theorem existing_channel_reused_witness:
  "length (text_channels
     (run_guild (create_all 1 [(''shop'', {example_old}), (''bank'', {example_old2})]
                   (example_guild (only_at 1), new_creator)))) = 2 \<and>
   text_channels
     (run_guild (create_all 1 [(''shop'', {example_old}), (''bank'', {example_old2})]
        (run_guild (create_all 1 [(''shop'', {example_old}), (''bank'', {example_old2})]
                      (example_guild (only_at 1), new_creator)),
         new_creator))) =
   text_channels
     (run_guild (create_all 1 [(''shop'', {example_old}), (''bank'', {example_old2})]
                   (example_guild (only_at 1), new_creator)))"
proof -
  let ?idx = "[(''shop'', {example_old}), (''bank'', {example_old2})]"
  let ?r1 = "create_all 1 ?idx (example_guild (only_at 1), new_creator)"
  let ?r2 = "create_all 1 ?idx (run_guild ?r1, new_creator)"
  have two: "length (text_channels (run_guild ?r1)) = 2" by code_simp
  have e1: "?r1 = (fst ?r1, run_guild ?r1, run_creator ?r1)"
    by (simp add: run_guild_def run_creator_def)
  have e2: "?r2 = (fst ?r2, run_guild ?r2, run_creator ?r2)"
    by (simp add: run_guild_def run_creator_def)
  have all: "\<forall>item \<in> set ?idx. fst item \<in> cr_resource ` set (created_channels (run_creator ?r1))"
    by code_simp
  from existing_channel_reused [THEN conjunct2, THEN conjunct2, rule_format (no_asm),
      OF e1 all e2]
  have "text_channels (run_guild ?r2) = text_channels (run_guild ?r1)" by simp
  with two show ?thesis by simp
qed






section \<open>Claims about scanning\<close>

text \<open>
  Claim C3.  Two readable files attributed to the same resource each hold the same valid
  URL, and every accepted candidate of either file is that URL: \<open>m1\<close> matches in the
  first file and \<open>m2\<close> in the second, counted over all patterns.  After the scan the
  resource's URL set holds the URL once, and the URL's occurrence list holds \<open>m1\<close>
  entries for the first file followed by \<open>m2\<close> for the second: one entry for every
  match of every pattern, not one for every file.  One textual occurrence written
  \<^verbatim>\<open>webhook = "..."\<close> is matched by the URL pattern and by two of the key-value
  patterns, so two such files give six entries; only an occurrence that nothing but the
  URL pattern matches gives one entry for its file.
\<close>

theorem scan_same_url_two_files:
  assumes "read_text fs f1 = Inr c1" and "read_text fs f2 = Inr c2"
    and "extract_resource_name base f1 = r" and "extract_resource_name base f2 = r"
    and "candidates c1 = replicate m1 (Some u)" and "0 < m1"
    and "candidates c2 = replicate m2 (Some u)" and "0 < m2"
    and "valid_candidate (Some u) = Inr True"
  shows "webhooks_by_resource (scan base fs [f1, f2] new_scanner) = [(r, {u})] \<and>
     occurrences_of (file_occurrences (scan base fs [f1, f2] new_scanner)) u =
       replicate m1 (f1, r) @ replicate m2 (f2, r)"
  using scan_two_files [OF assms] by (simp add: occurrences_of_def)

theorem scan_same_url_two_files_witness:
  "candidates example_assignment = [Some example_old, Some example_old, Some example_old] \<and>
   webhooks_by_resource
     (scan [''srv'']
        (no_faults [(example_file, example_assignment), (example_file3, example_assignment)])
        [example_file, example_file3] new_scanner) = [(''shop'', {example_old})] \<and>
   occurrences_of (file_occurrences
     (scan [''srv'']
        (no_faults [(example_file, example_assignment), (example_file3, example_assignment)])
        [example_file, example_file3] new_scanner)) example_old =
     [(example_file, ''shop''), (example_file, ''shop''), (example_file, ''shop''),
      (example_file3, ''shop''), (example_file3, ''shop''), (example_file3, ''shop'')] \<and>
   occurrences_of (file_occurrences
     (scan [''srv'']
        (no_faults [(example_file, example_bare), (example_file3, example_bare)])
        [example_file, example_file3] new_scanner)) example_old =
     [(example_file, ''shop''), (example_file3, ''shop'')]"
proof -
  have rd: "read_text (no_faults [(example_file, c), (example_file3, c)]) example_file = Inr c"
    "read_text (no_faults [(example_file, c), (example_file3, c)]) example_file3 = Inr c" for c
    using files_differ by (auto simp: read_text_def no_faults_def)
  have k3: "candidates example_assignment = replicate 3 (Some example_old)"
    using cand_assignment by (simp add: numeral_3_eq_3)
  have k1: "candidates example_bare = replicate 1 (Some example_old)"
    using cand_bare by simp
  have p3: "0 < (3::nat)" and p1: "0 < (1::nat)" by simp_all
  from scan_same_url_two_files [OF rd name_file name_file3 k3 p3 k3 p3 valid_old]
    scan_same_url_two_files [OF rd name_file name_file3 k1 p1 k1 p1 valid_old]
    cand_assignment
  show ?thesis by (simp add: numeral_3_eq_3)
qed

text \<open>
  Claim C10.  The validator accepts a URL whose host, \<open>notdiscord.com\<close>, is neither an
  accepted hostname nor a subdomain of one: the host check is a substring test on the
  whole lowercased URL.  Such a URL, written in a file as \<^verbatim>\<open>webhook = "..."\<close>, goes
  through the whole command like any other: it is found, an endpoint is created for it
  and the file is rewritten to the new URL.
\<close>

theorem foreign_host_accepted:
  "is_valid_webhook example_foreign = Inr True \<and>
   url_host example_foreign = Some ''notdiscord.com'' \<and>
   ''notdiscord.com'' \<notin> set accepted_hosts \<and>
   \<not> list_ex (\<lambda>h. suffix (''.'' @ h) ''notdiscord.com'') accepted_hosts \<and>
   fst (scan_webhooks [''srv''] 1 ''webhook_backups'' ''20250101_120000''
          [example_file] [example_file]
          (no_faults [(example_file, example_foreign_assignment)], example_guild never))
     = Completed \<and>
   read_text
     (fst (snd (scan_webhooks [''srv''] 1 ''webhook_backups'' ''20250101_120000''
                  [example_file] [example_file]
                  (no_faults [(example_file, example_foreign_assignment)],
                   example_guild never))))
     example_file = Inr (''webhook = '' @ [CHR 0x22] @ example_hook_url 1 @ [CHR 0x22])"
  using foreign_checks foreign_pipeline by (simp only: simp_thms)

theorem foreign_host_accepted_witness:
  "\<exists>u h. is_valid_webhook u = Inr True \<and> url_host u = Some h \<and> h \<notin> set accepted_hosts"
  using foreign_host_accepted by blast

end
